theory Spec2Isabelle
  imports Main "HOL-Library.Word" "HOL-Library.Multiset"
begin

unbundle bit_operations_syntax

section \<open>The bucket trie of trie.c\<close>

text \<open>
  The container of trie.c stores unsigned 16-bit values in a tree of 64-byte nodes.
  A node is a C union of three shapes (trie.h): 32 values of 16 bits (DataNode_t),
  8 child pointers (TravelNode_t) or 8 counters of 64 bits (CountNode_t). The union has
  no tag: \<open>trie__determine_node_type\<close> recovers the shape from the depth and from slot 0
  of the 16-bit view.

  The model keeps the ownership tree of the C heap as a datatype. A travel node holds
  the eight pointer values stored in \<open>link\<close> together with the eight nodes they point to.
  The constructor is the shape the node was last written as; every function of the model
  dispatches, as the C code does, on \<open>trie__determine_node_type\<close>, and reading a node
  through a view other than the one it was written as is a fault of the model
  (\<open>UndefinedBehaviour\<close>). Arrays are lists: \<open>data\<close> has 32 entries, \<open>link\<close> and
  \<open>count\<close> have 8. Pointers are 64 bits wide and the machine is little-endian, so the
  16-bit slot 0 of a travel node is the low half-word of \<open>link[0]\<close>.
\<close>

type_synonym u16 = "16 word"
type_synonym u64 = "64 word"

datatype fault = AssertionFailed | UndefinedBehaviour

datatype NodeType_t = NODE_TYPE_NONE | NODE_TYPE_DATA | NODE_TYPE_TRAVEL | NODE_TYPE_COUNT

datatype node =
    DataNode "u16 list"
  | TravelNode "u64 list" "node list"
  | CountNode "u64 list"

record sTrie =
  base_node :: node
  number_of_zeros :: u64

subsection \<open>Addressing\<close>

definition MASK_N_BITS :: nat where
  "MASK_N_BITS = 3"

definition shift_amount :: "nat list" where
  "shift_amount = [13, 10, 7, 4, 1, 0]"

definition mask_array :: "u16 list" where
  "mask_array = [0xE000, 0x1C00, 0x0380, 0x0070, 0x000E, 0x0001]"

definition GEN_SHIFT :: "nat \<Rightarrow> nat" where
  "GEN_SHIFT depth = shift_amount ! depth"

definition GEN_MASK :: "nat \<Rightarrow> u16" where
  "GEN_MASK depth = mask_array ! depth"

definition IDX_FROM_VALUE :: "u16 \<Rightarrow> nat \<Rightarrow> nat" where
  "IDX_FROM_VALUE val depth = unat (drop_bit (GEN_SHIFT depth) (val AND GEN_MASK depth))"

definition TRIE_MAX_DEPTH :: nat where
  "TRIE_MAX_DEPTH = 5"

definition USHRT_MAX :: u64 where
  "USHRT_MAX = 65535"

definition TAG_PTR :: "u64 \<Rightarrow> u64" where
  "TAG_PTR ptr = ptr OR 1"

definition UNTAG_PTR :: "u64 \<Rightarrow> u64" where
  "UNTAG_PTR ptr = ptr AND NOT 1"

subsection \<open>Classification\<close>

text \<open>
  \<open>data0\<close> is the read \<open>((DataNode_t* )nodep)->data[0]\<close>: slot 0 of the 16-bit view of
  the 64 bytes, whatever the node was written as.
\<close>

fun data0 :: "node \<Rightarrow> u16" where
  "data0 (DataNode ds) = ds ! 0"
| "data0 (TravelNode link kids) = ucast (link ! 0)"
| "data0 (CountNode cs) = ucast (cs ! 0)"

definition trie__determine_node_type :: "node \<Rightarrow> nat \<Rightarrow> NodeType_t" where
  "trie__determine_node_type nodep current_depth =
     (if current_depth = TRIE_MAX_DEPTH then NODE_TYPE_COUNT
      else if data0 nodep = 0 then NODE_TYPE_DATA else NODE_TYPE_TRAVEL)"

definition trie__data_node_is_full :: "u16 list \<Rightarrow> bool" where
  "trie__data_node_is_full ds = (if ds ! 0 = 0 then False else True)"

subsection \<open>Bursting\<close>

text \<open>
  The inner loop of \<open>trie__burst_data_node\<close>: starting at slot 31 of the child, step down
  while the slot is occupied by a value not above the one to place. Stepping below slot 0
  leaves the child's array.
\<close>

fun burst_scan :: "u16 list \<Rightarrow> u16 \<Rightarrow> nat \<Rightarrow> fault + nat" where
  "burst_scan c v 0 = (if c ! 0 \<noteq> 0 \<and> c ! 0 \<le> v then Inl UndefinedBehaviour else Inr 0)"
| "burst_scan c v (Suc i) =
     (if c ! Suc i \<noteq> 0 \<and> c ! Suc i \<le> v then burst_scan c v i else Inr (Suc i))"

text \<open>
  The two outer loops, over the parent's values in the order the code reads them
  (slot 31 first). The state of the second is the slab of eight children and
  \<open>node_to_burst\<close>, the index of the child recorded for a further burst.
\<close>

fun burst_fill_count :: "nat \<Rightarrow> u16 list \<Rightarrow> u64 list list \<Rightarrow> u64 list list" where
  "burst_fill_count depth [] slab = slab"
| "burst_fill_count depth (v # vs) slab =
     (let i = IDX_FROM_VALUE v depth;
          b = IDX_FROM_VALUE v TRIE_MAX_DEPTH
      in burst_fill_count depth vs (slab[i := (slab ! i)[b := slab ! i ! b + 1]]))"

fun burst_fill_data ::
  "nat \<Rightarrow> u16 list \<Rightarrow> u16 list list \<times> nat option \<Rightarrow> fault + (u16 list list \<times> nat option)" where
  "burst_fill_data depth [] st = Inr st"
| "burst_fill_data depth (v # vs) (slab, node_to_burst) =
     (let i = IDX_FROM_VALUE v depth in
      case burst_scan (slab ! i) v 31 of
        Inl e \<Rightarrow> Inl e
      | Inr p \<Rightarrow>
          burst_fill_data depth vs
            (slab[i := (slab ! i)[p := v]], if p = 0 then Some i else node_to_burst))"

text \<open>
  The last loop of the burst stores the tagged addresses of the eight nodes of the slab,
  64 bytes apart, into \<open>link\<close>.
\<close>

definition slab_links :: "u64 \<Rightarrow> u64 list" where
  "slab_links all_new_nodesp = map (\<lambda>i. TAG_PTR (all_new_nodesp + 64 * of_nat i)) [0..<8]"

text \<open>
  What a successful \<open>aligned_alloc(CACHE_LINE_SIZE, 8 * sizeof(Node_t))\<close> returns for the
  slab: an address that is not null and a multiple of 64, with the 512 bytes of the eight
  nodes below the end of the address space. Node \<open>i\<close> of the slab, \<open>all_new_nodesp[i]\<close>,
  lies at \<open>slab_node all_new_nodesp i\<close>.
\<close>

definition CACHE_LINE_SIZE :: u64 where
  "CACHE_LINE_SIZE = 64"

definition slab_address :: "u64 \<Rightarrow> bool" where
  "slab_address a = (a \<noteq> 0 \<and> a AND (CACHE_LINE_SIZE - 1) = 0 \<and> unat a + 512 \<le> 2 ^ 64)"

definition slab_node :: "u64 \<Rightarrow> nat \<Rightarrow> u64" where
  "slab_node all_new_nodesp i = all_new_nodesp + 64 * of_nat i"

text \<open>
  \<open>aligned_alloc\<close> is taken to succeed; the address of the slab allocated by the burst at
  depth \<open>d\<close> is \<open>al d\<close>, an arbitrary value chosen by the environment. A depth above 5
  would index \<open>mask_array\<close> out of bounds.
\<close>

function trie__burst_data_node :: "(nat \<Rightarrow> u64) \<Rightarrow> u16 list \<Rightarrow> nat \<Rightarrow> fault + node" where
  "trie__burst_data_node al ds current_depth =
     (if current_depth > 5 then Inl UndefinedBehaviour
      else
        let link = slab_links (al current_depth) in
        if current_depth = TRIE_MAX_DEPTH - 1
        then Inr (TravelNode link
               (map CountNode (burst_fill_count current_depth (rev ds) (replicate 8 (replicate 8 0)))))
        else
          case burst_fill_data current_depth (rev ds) (replicate 8 (replicate 32 0), None) of
            Inl e \<Rightarrow> Inl e
          | Inr (slab, None) \<Rightarrow> Inr (TravelNode link (map DataNode slab))
          | Inr (slab, Some j) \<Rightarrow>
              (case trie__burst_data_node al (slab ! j) (current_depth + 1) of
                 Inl e \<Rightarrow> Inl e
               | Inr c \<Rightarrow> Inr (TravelNode link ((map DataNode slab)[j := c]))))"
  by pat_completeness auto
termination
  by (relation "measure (\<lambda>(al, ds, d). 6 - d)") auto

declare trie__burst_data_node.simps [simp del]

subsection \<open>Insertion\<close>

text \<open>
  The scan of \<open>trie_insert_value\<close> in a data node, from slot 31 down, with its assertion
  that the scan never has to step below slot 0.
\<close>

fun insert_scan :: "u16 list \<Rightarrow> u16 \<Rightarrow> nat \<Rightarrow> fault + nat" where
  "insert_scan ds v 0 = (if ds ! 0 \<noteq> 0 \<and> ds ! 0 < v then Inl AssertionFailed else Inr 0)"
| "insert_scan ds v (Suc i) =
     (if ds ! Suc i \<noteq> 0 \<and> ds ! Suc i < v then insert_scan ds v i else Inr (Suc i))"

text \<open>
  The write that follows the scan. \<open>memmove\<close> copies slots \<open>1..p\<close> onto slots
  \<open>0..p-1\<close>; then slot \<open>p\<close> receives the value.
\<close>

definition data_node_insert :: "u16 list \<Rightarrow> u16 \<Rightarrow> fault + u16 list" where
  "data_node_insert ds v =
     (case insert_scan ds v 31 of
        Inl e \<Rightarrow> Inl e
      | Inr p \<Rightarrow>
          if ds ! p = 0 then Inr (ds[p := v])
          else Inr ((take p (drop 1 ds) @ drop p ds)[p := v]))"

text \<open>
  \<open>trie__follow_travel_node\<close>: the pointer of the slot of the value, with the tag removed.
  In the walk below the node at that address is \<open>kids ! IDX_FROM_VALUE val current_depth\<close>.
\<close>

definition trie__follow_travel_node :: "u64 list \<Rightarrow> nat \<Rightarrow> u16 \<Rightarrow> u64" where
  "trie__follow_travel_node link depth val = UNTAG_PTR (link ! IDX_FROM_VALUE val depth)"

text \<open>
  The walk of \<open>trie_insert_value\<close> from a node at a depth: down through travel nodes,
  then the increment of a count bucket or the insertion into a data node, followed by a
  burst when the node has become full. The C loop updates the leaf in place; the model
  rebuilds the path.
\<close>

function trie__insert_at :: "(nat \<Rightarrow> u64) \<Rightarrow> node \<Rightarrow> nat \<Rightarrow> u16 \<Rightarrow> fault + node" where
  "trie__insert_at al current_node current_depth v =
     (case trie__determine_node_type current_node current_depth of
        NODE_TYPE_TRAVEL \<Rightarrow>
          (case current_node of
             TravelNode link kids \<Rightarrow>
               (let i = IDX_FROM_VALUE v current_depth in
                if i < length kids then
                  (case trie__insert_at al (kids ! i) (current_depth + 1) v of
                     Inl e \<Rightarrow> Inl e
                   | Inr k \<Rightarrow> Inr (TravelNode link (kids[i := k])))
                else Inl UndefinedBehaviour)
           | _ \<Rightarrow> Inl UndefinedBehaviour)
      | NODE_TYPE_COUNT \<Rightarrow>
          (case current_node of
             CountNode cs \<Rightarrow>
               (let b = IDX_FROM_VALUE v TRIE_MAX_DEPTH in
                if cs ! b = USHRT_MAX then Inl AssertionFailed
                else Inr (CountNode (cs[b := cs ! b + 1])))
           | _ \<Rightarrow> Inl UndefinedBehaviour)
      | _ \<Rightarrow>
          (case current_node of
             DataNode ds \<Rightarrow>
               (case data_node_insert ds v of
                  Inl e \<Rightarrow> Inl e
                | Inr ds' \<Rightarrow>
                    if trie__data_node_is_full ds' then trie__burst_data_node al ds' current_depth
                    else Inr (DataNode ds'))
           | _ \<Rightarrow> Inl UndefinedBehaviour))"
  by pat_completeness auto
termination
  by (relation "measure (\<lambda>(al, n, d, v). size n)") (auto simp: less_Suc_eq_le intro: size_list_estimation' [OF nth_mem order_refl])

declare trie__insert_at.simps [simp del]

definition trie_init :: sTrie where
  "trie_init = \<lparr>base_node = DataNode (replicate 32 0), number_of_zeros = 0\<rparr>"

definition trie_insert_value :: "(nat \<Rightarrow> u64) \<Rightarrow> sTrie \<Rightarrow> u16 \<Rightarrow> fault + sTrie" where
  "trie_insert_value al trie_ctxp v =
     (if v = 0 then Inr (trie_ctxp\<lparr>number_of_zeros := number_of_zeros trie_ctxp + 1\<rparr>)
      else
        case trie__insert_at al (base_node trie_ctxp) 0 v of
          Inl e \<Rightarrow> Inl e
        | Inr n \<Rightarrow> Inr (trie_ctxp\<lparr>base_node := n\<rparr>))"

text \<open>
  A caller's loop of insertions, as in the tests. The allocator of the \<open>k\<close>-th insertion
  is \<open>al k\<close>; a fault ends the run.
\<close>

fun trie_insert_values :: "(nat \<Rightarrow> nat \<Rightarrow> u64) \<Rightarrow> sTrie \<Rightarrow> u16 list \<Rightarrow> fault + sTrie" where
  "trie_insert_values al t [] = Inr t"
| "trie_insert_values al t (v # vs) =
     (case trie_insert_value (al 0) t v of
        Inl e \<Rightarrow> Inl e
      | Inr t' \<Rightarrow> trie_insert_values (\<lambda>k. al (Suc k)) t' vs)"

subsection \<open>Enumeration\<close>

text \<open>
  The output stream is the list of the numbers written, one for each call of
  \<open>fprintf(fp, "%u ", value)\<close>; \<open>stream_text\<close> below gives its characters.
\<close>

definition trie__print_count_node :: "u64 list \<Rightarrow> u16 \<Rightarrow> u16 list" where
  "trie__print_count_node cs v = replicate (unat (cs ! IDX_FROM_VALUE v TRIE_MAX_DEPTH)) v"

definition trie__print_data_node :: "u16 list \<Rightarrow> u16 list" where
  "trie__print_data_node ds = takeWhile (\<lambda>x. x \<noteq> 0) (rev ds)"

fun append_outputs :: "(fault + 'a list) list \<Rightarrow> fault + 'a list" where
  "append_outputs [] = Inr []"
| "append_outputs (r # rs) =
     (case r of
        Inl e \<Rightarrow> Inl e
      | Inr xs \<Rightarrow> (case append_outputs rs of Inl e \<Rightarrow> Inl e | Inr ys \<Rightarrow> Inr (xs @ ys)))"

definition slice_consts :: "u16 list" where
  "slice_consts = [0x0000, 0x2000, 0x4000, 0x6000, 0x8000, 0xA000, 0xC000, 0xE000]"

function trie__print_subtrie :: "node \<Rightarrow> u16 \<Rightarrow> nat \<Rightarrow> fault + u16 list" where
  "trie__print_subtrie nodep v depth =
     (case trie__determine_node_type nodep depth of
        NODE_TYPE_COUNT \<Rightarrow>
          (case nodep of
             CountNode cs \<Rightarrow> Inr (trie__print_count_node cs v @ trie__print_count_node cs (v + 1))
           | _ \<Rightarrow> Inl UndefinedBehaviour)
      | NODE_TYPE_DATA \<Rightarrow>
          (case nodep of
             DataNode ds \<Rightarrow> Inr (trie__print_data_node ds)
           | _ \<Rightarrow> Inl UndefinedBehaviour)
      | NODE_TYPE_TRAVEL \<Rightarrow>
          (case nodep of
             TravelNode link kids \<Rightarrow>
               if length kids = 8 then
                 append_outputs
                   (map (\<lambda>i. trie__print_subtrie (kids ! i)
                               (v + drop_bit (depth * MASK_N_BITS) (slice_consts ! i)) (depth + 1))
                      [0..<8])
               else Inl UndefinedBehaviour
           | _ \<Rightarrow> Inl UndefinedBehaviour)
      | NODE_TYPE_NONE \<Rightarrow> Inl AssertionFailed)"
  by pat_completeness auto
termination
  by (relation "measure (\<lambda>(n, v, d). size n)") (auto simp: less_Suc_eq_le intro: size_list_estimation' [OF nth_mem order_refl])

declare trie__print_subtrie.simps [simp del]

definition trie_print_values :: "sTrie \<Rightarrow> fault + u16 list" where
  "trie_print_values triep =
     (case trie__print_subtrie (base_node triep) 0 0 of
        Inl e \<Rightarrow> Inl e
      | Inr out \<Rightarrow> Inr (replicate (unat (number_of_zeros triep)) 0 @ out))"

text \<open>
  The characters written: \<open>"%u "\<close> for each number of a stream, given as the list of
  the numbers.
\<close>

fun decimal :: "nat \<Rightarrow> string" where
  "decimal n =
     (if n < 10 then [''0123456789'' ! n]
      else decimal (n div 10) @ [''0123456789'' ! (n mod 10)])"

declare decimal.simps [simp del]

definition stream_text :: "nat list \<Rightarrow> string" where
  "stream_text out = concat (map (\<lambda>n. decimal n @ '' '') out)"

subsection \<open>The oracle of the property test\<close>

text \<open>
  trie.proptest.c compares the container with an array of 65536 counters:
  \<open>oracle_insert\<close> increments the counter of the value and \<open>oracle_print\<close> writes every
  index as often as its counter says.
\<close>

definition oracle_init :: "u64 list" where
  "oracle_init = replicate 65536 0"

definition oracle_insert :: "u64 list \<Rightarrow> u16 \<Rightarrow> u64 list" where
  "oracle_insert array v = array[unat v := array ! unat v + 1]"

definition oracle_print :: "u64 list \<Rightarrow> nat list" where
  "oracle_print array = concat (map (\<lambda>i. replicate (unat (array ! i)) i) [0..<65536])"

subsection \<open>Notions used in the statements\<close>

text \<open>
  The key bits consumed above depth \<open>d\<close>, as a number: the path from the root to a node
  at depth \<open>d\<close>. \<open>prefix_value\<close> is the value that \<open>trie__print_subtrie\<close> has
  accumulated on that path.
\<close>

definition key_prefix :: "nat \<Rightarrow> u16 \<Rightarrow> nat" where
  "key_prefix d v = unat v div 2 ^ (16 - 3 * d)"

definition prefix_value :: "nat \<Rightarrow> nat \<Rightarrow> u16" where
  "prefix_value d q = of_nat (q * 2 ^ (16 - 3 * d))"

text \<open>The data array that holds the ascending list \<open>xs\<close>: slot 31 holds its head.\<close>

definition right_justified :: "u16 list \<Rightarrow> u16 list" where
  "right_justified xs = replicate (32 - length xs) 0 @ rev xs"

definition sparse_ok :: "u16 list \<Rightarrow> bool" where
  "sparse_ok ds =
     (let xs = trie__print_data_node ds
      in length xs \<le> 32 \<and> ds = right_justified xs \<and> sorted xs)"

text \<open>The slots of a data array from the first occupied one on.\<close>

definition occupied :: "u16 list \<Rightarrow> u16 list" where
  "occupied ds = dropWhile (\<lambda>x. x = 0) ds"

text \<open>
  A full data node as \<open>trie__burst_data_node\<close> receives it at depth \<open>d\<close> below the
  path \<open>q\<close>.
\<close>

definition full_sparse :: "nat \<Rightarrow> nat \<Rightarrow> u16 list \<Rightarrow> bool" where
  "full_sparse d q ds =
     (d < 5 \<and> q < 8 ^ d \<and> length ds = 32 \<and> 0 \<notin> set ds \<and> sorted (rev ds) \<and>
      (\<forall>v\<in>set ds. key_prefix d v = q))"

text \<open>
  The values that a burst at depth \<open>d\<close> routes to child \<open>i\<close>, and the slab of data
  children that holds the values \<open>xs\<close> after this routing.
\<close>

definition routed :: "nat \<Rightarrow> nat \<Rightarrow> u16 list \<Rightarrow> u16 list" where
  "routed d i xs = filter (\<lambda>v. IDX_FROM_VALUE v d = i) xs"

definition data_slab :: "nat \<Rightarrow> u16 list \<Rightarrow> u16 list list" where
  "data_slab d xs = map (\<lambda>i. right_justified (routed d i xs)) [0..<8]"

text \<open>The invariant of a node at depth \<open>d\<close> below the path \<open>q\<close>.\<close>

function node_inv :: "nat \<Rightarrow> nat \<Rightarrow> node \<Rightarrow> bool" where
  "node_inv d q (DataNode ds) =
     (d < 5 \<and> sparse_ok ds \<and> ds ! 0 = 0 \<and>
      (\<forall>v\<in>set (trie__print_data_node ds). key_prefix d v = q))"
| "node_inv d q (TravelNode link kids) =
     (d < 5 \<and> length link = 8 \<and> (\<forall>p\<in>set link. p AND 1 = 1) \<and> length kids = 8 \<and>
      (\<forall>i<length kids. node_inv (Suc d) (8 * q + i) (kids ! i)))"
| "node_inv d q (CountNode cs) =
     (d = 5 \<and> length cs = 8 \<and> (\<forall>i<8. 2 \<le> i \<longrightarrow> cs ! i = 0) \<and>
      cs ! 0 \<le> 65535 \<and> cs ! 1 \<le> 65535)"
  by pat_completeness auto
termination
  by (relation "measure (\<lambda>(d, q, n). size n)")
     (auto simp: less_Suc_eq_le intro: size_list_estimation' [OF nth_mem order_refl])

text \<open>The values below a node, in the order of the enumeration.\<close>

function elems :: "nat \<Rightarrow> nat \<Rightarrow> node \<Rightarrow> u16 list" where
  "elems d q (DataNode ds) = trie__print_data_node ds"
| "elems d q (TravelNode link kids) =
     concat (map (\<lambda>i. elems (Suc d) (8 * q + i) (kids ! i)) [0..<length kids])"
| "elems d q (CountNode cs) =
     replicate (unat (cs ! 0)) (of_nat (2 * q)) @ replicate (unat (cs ! 1)) (of_nat (2 * q + 1))"
  by pat_completeness auto
termination
  by (relation "measure (\<lambda>(d, q, n). size n)")
     (auto simp: less_Suc_eq_le intro: size_list_estimation' [OF nth_mem order_refl])

text \<open>Every node of a tree with its depth, the root first.\<close>

fun reachable_nodes :: "nat \<Rightarrow> node \<Rightarrow> (nat \<times> node) list" where
  "reachable_nodes d (TravelNode link kids) =
     (d, TravelNode link kids) # concat (map (reachable_nodes (Suc d)) kids)"
| "reachable_nodes d n = [(d, n)]"

text \<open>The shape a node was written as.\<close>

fun shape :: "node \<Rightarrow> NodeType_t" where
  "shape (DataNode ds) = NODE_TYPE_DATA"
| "shape (TravelNode link kids) = NODE_TYPE_TRAVEL"
| "shape (CountNode cs) = NODE_TYPE_COUNT"

text \<open>
  The memory of a slab at \<open>all_new_nodesp\<close> whose eight nodes are \<open>kids\<close>: the address of
  node \<open>i\<close> holds \<open>kids ! i\<close>, every other address is outside the slab.
\<close>

definition slab_memory :: "u64 \<Rightarrow> node list \<Rightarrow> u64 \<rightharpoonup> node" where
  "slab_memory all_new_nodesp kids = map_of (zip (map (slab_node all_new_nodesp) [0..<8]) kids)"

text \<open>An allocator for the examples: the \<open>k\<close>-th insertion gets its slabs at these addresses.\<close>

definition slabs :: "nat \<Rightarrow> nat \<Rightarrow> u64" where
  "slabs k d = 0x100000 * (of_nat k + 1) + 0x200 * of_nat d"

text \<open>The insertion sequences of the unit tests of trie.unittest.c.\<close>

definition test_simple :: "u16 list" where
  "test_simple = [0, 1, 2, 3, 5, 1, 8, 0, 8, 13, 65535, 90]"

definition test_simple_burst :: "u16 list" where
  "test_simple_burst =
     [1, 2, 3, 4, 5, 6, 7, 8, 9, 10, 11, 12, 13, 14, 15, 16, 17, 18, 19, 20, 21, 22, 23, 24,
      65535, 25, 26, 27, 28, 29, 30, 31, 32]"

definition test_simple_counting_bucket :: "u16 list" where
  "test_simple_counting_bucket = replicate 40 1"

text \<open>A full data array for the examples: the values 1 to 32, the smallest in slot 31.\<close>

definition full_node_example :: "u16 list" where
  "full_node_example =
     [32, 31, 30, 29, 28, 27, 26, 25, 24, 23, 22, 21, 20, 19, 18, 17,
      16, 15, 14, 13, 12, 11, 10, 9, 8, 7, 6, 5, 4, 3, 2, 1]"

section \<open>The addressing function as arithmetic\<close>

lemma and_7_mod: "unat ((x::u16) AND 7) = unat x mod 8"
proof -
  have "x AND 7 = take_bit 3 x"
    by (simp add: take_bit_eq_mask mask_eq_exp_minus_1)
  then show ?thesis
    by (simp add: unsigned_take_bit_eq take_bit_eq_mod unat_mod)
qed

lemma and_1_mod: "unat ((x::u16) AND 1) = unat x mod 2"
proof -
  have "x AND 1 = take_bit 1 x"
    by (simp add: take_bit_eq_mask mask_eq_exp_minus_1)
  then show ?thesis
    by (simp add: unsigned_take_bit_eq take_bit_eq_mod unat_mod)
qed

lemma slice_div_mod:
  fixes v :: u16
  assumes "drop_bit s m = (7::u16)"
  shows "unat (drop_bit s (v AND m)) = unat v div 2 ^ s mod 8"
proof -
  have "unat (drop_bit s (v AND m)) = unat (drop_bit s v AND 7)"
    by (simp only: drop_bit_and assms)
  also have "\<dots> = unat (drop_bit s v) mod 8"
    by (rule and_7_mod)
  also have "\<dots> = unat v div 2 ^ s mod 8"
    by (simp only: unat_drop_bit_eq) (simp only: drop_bit_eq_div)
  finally show ?thesis .
qed

lemmas IDX_unfold =
  IDX_FROM_VALUE_def GEN_SHIFT_def GEN_MASK_def shift_amount_def mask_array_def

lemma IDX_0: "IDX_FROM_VALUE v 0 = unat v div 2 ^ 13 mod 8"
  unfolding IDX_unfold using slice_div_mod [of 13 "0xE000" v] by simp

lemma IDX_1: "IDX_FROM_VALUE v 1 = unat v div 2 ^ 10 mod 8"
  unfolding IDX_unfold using slice_div_mod [of 10 "0x1C00" v] by simp

lemma IDX_2: "IDX_FROM_VALUE v 2 = unat v div 2 ^ 7 mod 8"
  unfolding IDX_unfold using slice_div_mod [of 7 "0x380" v] by simp

lemma IDX_3: "IDX_FROM_VALUE v 3 = unat v div 2 ^ 4 mod 8"
  unfolding IDX_unfold using slice_div_mod [of 4 "0x70" v] by simp

lemma IDX_4: "IDX_FROM_VALUE v 4 = unat v div 2 ^ 1 mod 8"
  unfolding IDX_unfold using slice_div_mod [of 1 "0xE" v] by simp

lemma IDX_5: "IDX_FROM_VALUE v 5 = unat v mod 2"
  unfolding IDX_unfold by (simp add: and_1_mod)

lemma depth_cases:
  fixes d :: nat
  assumes "d < 5"
  obtains "d = 0" | "d = 1" | "d = 2" | "d = 3" | "d = 4"
  using assms by linarith

lemma IDX_div_mod: "d < 5 \<Longrightarrow> IDX_FROM_VALUE v d = unat v div 2 ^ (13 - 3 * d) mod 8"
  by (erule depth_cases) (simp_all add: IDX_0 IDX_1 [unfolded One_nat_def] IDX_2 IDX_3 IDX_4)

lemma IDX_less_8: "d < 5 \<Longrightarrow> IDX_FROM_VALUE v d < 8"
  by (simp add: IDX_div_mod)

lemma IDX_max_less_2: "IDX_FROM_VALUE v TRIE_MAX_DEPTH < 2"
  by (simp add: TRIE_MAX_DEPTH_def IDX_5)

lemma key_prefix_0: "key_prefix 0 v = 0"
  using unsigned_less [of v, where 'a = nat] by (simp add: key_prefix_def)

lemma div_split8: "(x::nat) div k = 8 * (x div (8 * k)) + x div k mod 8"
proof -
  have "x div (8 * k) = x div k div 8"
    by (simp add: div_mult2_eq mult.commute)
  then show ?thesis by simp
qed

lemma key_prefix_Suc:
  "d < 5 \<Longrightarrow> key_prefix (Suc d) v = 8 * key_prefix d v + IDX_FROM_VALUE v d"
  apply (erule depth_cases)
  using div_split8 [of "unat v" "2 ^ 13"] div_split8 [of "unat v" "2 ^ 10"]
     div_split8 [of "unat v" "2 ^ 7"] div_split8 [of "unat v" "2 ^ 4"] div_split8 [of "unat v" "2 ^ 1"]
      apply (simp_all add: key_prefix_def IDX_0 IDX_1 [unfolded One_nat_def] IDX_2 IDX_3 IDX_4)
  done

lemma unat_key_prefix_5: "unat v = 2 * key_prefix 5 v + IDX_FROM_VALUE v 5"
  by (simp add: key_prefix_def IDX_5)

lemma key_prefix_less: "key_prefix d v < key_prefix d w \<Longrightarrow> v < w"
proof -
  assume "key_prefix d v < key_prefix d w"
  then have "unat v < unat w"
    unfolding key_prefix_def
    by (metis div_le_mono leD leI)
  then show ?thesis by (simp add: word_less_nat_alt)
qed

section \<open>Data arrays: scans, insertion and placement\<close>

lemma print_right_justified:
  "0 \<notin> set xs \<Longrightarrow> trie__print_data_node (right_justified xs) = xs"
proof -
  assume a: "0 \<notin> set xs"
  have "takeWhile (\<lambda>x. x \<noteq> 0) (xs @ replicate (32 - length xs) 0) = xs"
  proof (cases "32 - length xs")
    case 0
    with a show ?thesis by auto
  next
    case (Suc k)
    with a show ?thesis
      by (subst takeWhile_append2) auto
  qed
  then show ?thesis
    by (simp add: trie__print_data_node_def right_justified_def)
qed

lemma length_right_justified:
  "length xs \<le> 32 \<Longrightarrow> length (right_justified xs) = 32"
  by (simp add: right_justified_def)

lemma insert_scan_unfold:
  "insert_scan ds v i =
     (if ds ! i \<noteq> 0 \<and> ds ! i < v
      then (if i = 0 then Inl AssertionFailed else insert_scan ds v (i - 1))
      else Inr i)"
  by (cases i) auto

lemma burst_scan_unfold:
  "burst_scan c v i =
     (if c ! i \<noteq> 0 \<and> c ! i \<le> v
      then (if i = 0 then Inl UndefinedBehaviour else burst_scan c v (i - 1))
      else Inr i)"
  by (cases i) auto

lemma insert_scan_gen:
  "0 < k \<Longrightarrow> 0 \<notin> set xs \<Longrightarrow>
   insert_scan (replicate k 0 @ rev xs @ zs) v (k + length xs - 1) =
     Inr (k + length xs - 1 - length (takeWhile (\<lambda>x. x < v) xs))"
proof (induction xs arbitrary: zs)
  case Nil
  then show ?case
    by (subst insert_scan_unfold) (simp add: nth_append)
next
  case (Cons x xs)
  have nth: "(replicate k 0 @ rev xs @ x # zs) ! (k + length xs) = x"
    using Cons.prems by (simp add: nth_append)
  show ?case
  proof (cases "x < v")
    case True
    have "insert_scan (replicate k 0 @ rev (x # xs) @ zs) v (k + length (x # xs) - 1) =
          insert_scan (replicate k 0 @ rev xs @ (x # zs)) v (k + length xs - 1)"
      using Cons.prems True by (subst insert_scan_unfold) (simp add: nth del: insert_scan.simps)
    also have "\<dots> = Inr (k + length xs - 1 - length (takeWhile (\<lambda>x. x < v) xs))"
      using Cons.prems by (intro Cons.IH) auto
    finally show ?thesis using True by simp
  next
    case False
    then show ?thesis
      by (subst insert_scan_unfold) (simp add: nth del: insert_scan.simps)
  qed
qed

lemma burst_scan_gen:
  "0 < k \<Longrightarrow> 0 \<notin> set ys \<Longrightarrow> \<forall>y\<in>set ys. y \<le> v \<Longrightarrow>
   burst_scan (replicate k 0 @ rev ys @ zs) v (k + length ys - 1) = Inr (k - 1)"
proof (induction ys arbitrary: zs)
  case Nil
  then show ?case
    by (subst burst_scan_unfold) (simp add: nth_append)
next
  case (Cons y ys)
  have nth: "(replicate k 0 @ rev ys @ y # zs) ! (k + length ys) = y"
    using Cons.prems by (simp add: nth_append)
  have "burst_scan (replicate k 0 @ rev (y # ys) @ zs) v (k + length (y # ys) - 1) =
        burst_scan (replicate k 0 @ rev ys @ (y # zs)) v (k + length ys - 1)"
    using Cons.prems by (subst burst_scan_unfold) (simp add: nth del: burst_scan.simps)
  also have "\<dots> = Inr (k - 1)"
    using Cons.prems by (intro Cons.IH) auto
  finally show ?case .
qed

lemma insort_split:
  "insort v xs = takeWhile (\<lambda>x. x < v) xs @ v # dropWhile (\<lambda>x. x < v) (xs :: u16 list)"
  by (induction xs) auto


lemma memmove_insert:
  "length A = n \<Longrightarrow>
   (take (Suc n) (drop 1 (z # A @ h # B)) @ drop (Suc n) (z # A @ h # B))[Suc n := v]
     = A @ h # v # B"
  by (simp add: list_update_append)

lemma empty_slot_insert:
  "length A = n \<Longrightarrow> (A @ z # B)[n := v] = A @ v # B"
  by (simp add: list_update_append)

lemma data_node_insert_right_justified:
  assumes len: "length xs < 32" and nz: "0 \<notin> set xs"
  shows "data_node_insert (right_justified xs) v = Inr (right_justified (insort v xs))"
proof -
  define k where "k = 31 - length xs"
  define lo where "lo = takeWhile (\<lambda>x. x < v) xs"
  define hi where "hi = dropWhile (\<lambda>x. x < v) xs"
  have xs: "xs = lo @ hi" by (simp add: lo_def hi_def)
  have k: "32 - length xs = Suc k" using len by (simp add: k_def)
  have rev_xs: "rev xs = rev hi @ rev lo" by (subst xs) simp
  have ds: "right_justified xs = 0 # replicate k 0 @ rev hi @ rev lo"
    by (simp add: right_justified_def k rev_xs)
  have lenx: "length lo + length hi = length xs"
    by (simp add: lo_def hi_def flip: length_append)
  have res: "right_justified (insort v xs) = replicate k 0 @ rev hi @ v # rev lo"
    using len by (simp add: right_justified_def insort_split k_def lenx flip: lo_def hi_def)
  have "insert_scan (replicate (Suc k) 0 @ rev xs @ []) v (Suc k + length xs - 1) =
        Inr (Suc k + length xs - 1 - length lo)"
    unfolding lo_def using nz by (intro insert_scan_gen) auto
  moreover have "Suc k + length xs - 1 = 31" using len by (simp add: k_def)
  moreover have "31 - length lo = Suc (k + length hi) - 1"
    using len lenx by (simp add: k_def)
  ultimately have scan: "insert_scan (right_justified xs) v 31 = Inr (k + length hi)"
    by (simp add: right_justified_def k)
  show ?thesis
  proof (cases hi)
    case Nil
    have "(0 # replicate k 0 @ rev lo) = replicate k 0 @ 0 # rev lo"
      by (simp add: replicate_append_same)
    then have ds': "right_justified xs = replicate k 0 @ 0 # rev lo"
      by (simp add: ds Nil)
    have "right_justified xs ! k = 0"
      by (simp add: ds' nth_append)
    moreover have "(right_justified xs)[k := v] = replicate k 0 @ v # rev lo"
      unfolding ds' by (rule empty_slot_insert) simp
    ultimately show ?thesis
      using scan by (simp add: data_node_insert_def res Nil)
  next
    case (Cons h hi')
    have "h \<in> set xs" by (simp add: xs Cons)
    then have h: "h \<noteq> 0" using nz by auto
    define A where "A = replicate k 0 @ rev hi'"
    have A: "length A = k + length hi'" by (simp add: A_def)
    have ds': "right_justified xs = 0 # A @ h # rev lo"
      by (simp add: ds Cons A_def)
    have "right_justified xs ! (k + length hi) = h"
      unfolding ds' by (simp add: Cons nth_append A)
    moreover have
      "(take (Suc (k + length hi')) (drop 1 (right_justified xs)) @
        drop (Suc (k + length hi')) (right_justified xs))[Suc (k + length hi') := v]
       = A @ h # v # rev lo"
      unfolding ds' by (rule memmove_insert) (rule A)
    ultimately show ?thesis
      using scan h by (simp add: data_node_insert_def res Cons A_def)
  qed
qed

lemma burst_scan_right_justified:
  assumes "length ys < 32" "0 \<notin> set ys" "\<forall>y\<in>set ys. y \<le> v"
  shows "burst_scan (right_justified ys) v 31 = Inr (31 - length ys)"
proof -
  have "burst_scan (replicate (32 - length ys) 0 @ rev ys @ []) v (32 - length ys + length ys - 1)
        = Inr (32 - length ys - 1)"
    using assms by (intro burst_scan_gen) auto
  then show ?thesis using assms(1) by (simp add: right_justified_def)
qed

lemma right_justified_place:
  assumes "length ys < 32"
  shows "(right_justified ys)[31 - length ys := v] = right_justified (ys @ [v])"
    and "right_justified ys ! (31 - length ys) = 0"
proof -
  have k: "32 - length ys = Suc (31 - length ys)" using assms by simp
  have ds: "right_justified ys = replicate (31 - length ys) 0 @ 0 # rev ys"
    by (simp add: right_justified_def k replicate_append_same)
  show "(right_justified ys)[31 - length ys := v] = right_justified (ys @ [v])"
    unfolding ds by (subst empty_slot_insert) (simp_all add: right_justified_def)
  show "right_justified ys ! (31 - length ys) = 0"
    unfolding ds by (simp add: nth_append)
qed

lemma sparse_ok_right_justified:
  "length xs \<le> 32 \<Longrightarrow> 0 \<notin> set xs \<Longrightarrow> sorted xs \<Longrightarrow> sparse_ok (right_justified xs)"
  by (simp add: sparse_ok_def print_right_justified)

lemma right_justified_full: "length xs = 32 \<Longrightarrow> right_justified xs = rev xs"
  by (simp add: right_justified_def)

lemma right_justified_slot0:
  "length xs < 32 \<Longrightarrow> right_justified xs ! 0 = 0"
  by (simp add: right_justified_def nth_append)

lemma right_justified_slot0_full:
  "length xs = 32 \<Longrightarrow> 0 \<notin> set xs \<Longrightarrow> right_justified xs ! 0 \<noteq> 0"
proof -
  assume l: "length xs = 32" and nz: "0 \<notin> set xs"
  have ne: "xs \<noteq> []" using l by auto
  have "right_justified xs ! 0 = last xs"
    using l ne by (simp add: right_justified_def rev_nth last_conv_nth)
  moreover have "last xs \<in> set xs" using ne by (rule last_in_set)
  ultimately show ?thesis using nz by metis
qed

lemma sparse_okD:
  assumes "sparse_ok ds" "ds ! 0 = 0"
  shows "ds = right_justified (trie__print_data_node ds)"
    and "length (trie__print_data_node ds) < 32"
    and "sorted (trie__print_data_node ds)"
    and "0 \<notin> set (trie__print_data_node ds)"
proof -
  let ?xs = "trie__print_data_node ds"
  show ds: "ds = right_justified ?xs" and "sorted ?xs"
    using assms(1) by (simp_all add: sparse_ok_def Let_def)
  show nz: "0 \<notin> set ?xs"
    unfolding trie__print_data_node_def by (auto dest: set_takeWhileD)
  have le: "length ?xs \<le> 32" using assms(1) by (simp add: sparse_ok_def Let_def)
  show "length ?xs < 32"
  proof (rule ccontr)
    assume "\<not> length ?xs < 32"
    with le have l: "length ?xs = 32" by simp
    then show False
      using right_justified_slot0_full [OF l nz] assms(2) ds by metis
  qed
qed

section \<open>The redistribution loops of the burst\<close>

lemma routed_snoc:
  "routed d j (ps @ [v]) = (if IDX_FROM_VALUE v d = j then routed d j ps @ [v] else routed d j ps)"
  by (simp add: routed_def)

lemma routed_props:
  "set (routed d i xs) \<subseteq> set xs" "length (routed d i xs) \<le> length xs"
  "sorted xs \<Longrightarrow> sorted (routed d i xs)"
  by (auto simp: routed_def sorted_filter [where f = id, simplified])

lemma data_slab_nth: "i < 8 \<Longrightarrow> data_slab d xs ! i = right_justified (routed d i xs)"
  unfolding data_slab_def by (subst nth_map) simp_all

lemma length_data_slab: "length (data_slab d xs) = 8"
  by (simp add: data_slab_def)

lemma data_slab_snoc:
  assumes "IDX_FROM_VALUE v d = i" "i < 8"
  shows "(data_slab d ps)[i := right_justified (routed d i ps @ [v])] = data_slab d (ps @ [v])"
proof (rule nth_equalityI)
  show "length ((data_slab d ps)[i := right_justified (routed d i ps @ [v])]) =
        length (data_slab d (ps @ [v]))"
    by (simp add: length_data_slab)
next
  fix j assume "j < length ((data_slab d ps)[i := right_justified (routed d i ps @ [v])])"
  then have j: "j < 8" by (simp add: length_data_slab)
  show "(data_slab d ps)[i := right_justified (routed d i ps @ [v])] ! j =
        data_slab d (ps @ [v]) ! j"
    using j assms
    by (cases "j = i") (simp_all add: data_slab_nth length_data_slab routed_snoc)
qed

lemma fill_data_loop:
  assumes "d < 5" "sorted (ps @ vs)" "0 \<notin> set (ps @ vs)" "length (ps @ vs) \<le> 32"
    and "\<forall>i<8. length (routed d i ps) < 32"
  shows "\<exists>r. burst_fill_data d vs (data_slab d ps, None) = Inr (data_slab d (ps @ vs), r) \<and>
           (case r of
              None \<Rightarrow> \<forall>i<8. length (routed d i (ps @ vs)) < 32
            | Some j \<Rightarrow> j < 8 \<and> length (routed d j (ps @ vs)) = 32)"
  using assms
proof (induction vs arbitrary: ps)
  case Nil
  then show ?case by simp
next
  case (Cons v vs)
  define i where "i = IDX_FROM_VALUE v d"
  define ys where "ys = routed d i ps"
  have i: "i < 8" using Cons.prems(1) by (simp add: i_def IDX_less_8)
  have ylen: "length ys < 32" using Cons.prems(5) i by (simp add: ys_def)
  have sub: "set ys \<subseteq> set ps" by (simp add: ys_def routed_props)
  have ynz: "0 \<notin> set ys" using sub Cons.prems(3) by auto
  have yle: "\<forall>y\<in>set ys. y \<le> v" using sub Cons.prems(2) by (auto simp: sorted_append)
  have scan: "burst_scan (data_slab d ps ! i) v 31 = Inr (31 - length ys)"
    using burst_scan_right_justified [OF ylen ynz yle] i by (simp add: data_slab_nth ys_def)
  have upd: "(data_slab d ps)[i := (data_slab d ps ! i)[31 - length ys := v]] =
             data_slab d (ps @ [v])"
    using i right_justified_place(1) [OF ylen, of v] data_slab_snoc [of v d i ps]
    by (simp add: data_slab_nth ys_def i_def)
  have step: "burst_fill_data d (v # vs) (data_slab d ps, None) =
        burst_fill_data d vs (data_slab d (ps @ [v]), if 31 - length ys = 0 then Some i else None)"
    using scan upd by (simp add: i_def [symmetric])
  show ?case
  proof (cases "31 - length ys = 0")
    case True
    then have y31: "length ys = 31" using ylen by simp
    have "length ys \<le> length ps" by (simp add: ys_def routed_props)
    then have "length vs = 0" using Cons.prems(4) y31 by (simp del: length_0_conv)
    then have "vs = []" by simp
    moreover have "length (routed d i (ps @ [v])) = 32"
      by (simp add: routed_snoc i_def [symmetric] ys_def [symmetric] y31)
    ultimately show ?thesis unfolding step using True i by simp
  next
    case False
    have small: "\<forall>j<8. length (routed d j (ps @ [v])) < 32"
      using Cons.prems(5) False ylen by (auto simp: routed_snoc i_def [symmetric] ys_def [symmetric])
    have "\<exists>r. burst_fill_data d vs (data_slab d (ps @ [v]), None) =
              Inr (data_slab d ((ps @ [v]) @ vs), r) \<and>
           (case r of
              None \<Rightarrow> \<forall>i<8. length (routed d i ((ps @ [v]) @ vs)) < 32
            | Some j \<Rightarrow> j < 8 \<and> length (routed d j ((ps @ [v]) @ vs)) = 32)"
      using Cons.prems small by (intro Cons.IH) simp_all
    then have "\<exists>r. burst_fill_data d vs (data_slab d (ps @ [v]), None) =
              Inr (data_slab d (ps @ v # vs), r) \<and>
           (case r of
              None \<Rightarrow> \<forall>i<8. length (routed d i (ps @ v # vs)) < 32
            | Some j \<Rightarrow> j < 8 \<and> length (routed d j (ps @ v # vs)) = 32)"
      by (simp cong: option.case_cong)
    then show ?thesis unfolding step using False by simp
  qed
qed

lemma data_slab_Nil: "data_slab d [] = replicate 8 (replicate 32 0)"
  by (simp add: data_slab_def routed_def right_justified_def map_replicate_const)

lemma fill_data_full:
  assumes "d < 5" "sorted xs" "0 \<notin> set xs" "length xs \<le> 32"
  shows "\<exists>r. burst_fill_data d xs (replicate 8 (replicate 32 0), None) = Inr (data_slab d xs, r) \<and>
           (case r of
              None \<Rightarrow> \<forall>i<8. length (routed d i xs) < 32
            | Some j \<Rightarrow> j < 8 \<and> length (routed d j xs) = 32)"
  using fill_data_loop [of d "[]" xs] assms
  by (simp add: data_slab_Nil routed_def cong: option.case_cong)

lemma fill_count_length:
  "d < 5 \<Longrightarrow> length slab = 8 \<Longrightarrow> \<forall>c\<in>set slab. length c = 8 \<Longrightarrow>
   length (burst_fill_count d vs slab) = 8 \<and> (\<forall>c\<in>set (burst_fill_count d vs slab). length c = 8)"
proof (induction vs arbitrary: slab)
  case Nil
  then show ?case by simp
next
  case (Cons v vs)
  let ?i = "IDX_FROM_VALUE v d" and ?b = "IDX_FROM_VALUE v TRIE_MAX_DEPTH"
  let ?slab = "slab[?i := (slab ! ?i)[?b := slab ! ?i ! ?b + 1]]"
  have "?i < 8" using Cons.prems(1) by (rule IDX_less_8)
  then have "slab ! ?i \<in> set slab" using Cons.prems(2) by simp
  then have li: "length (slab ! ?i) = 8" using Cons.prems(3) by blast
  have "length ?slab = 8" using Cons.prems by simp
  moreover have "\<forall>c\<in>set ?slab. length c = 8"
    using Cons.prems li by (auto dest!: set_update_subset_insert [THEN subsetD])
  ultimately show ?case
    using Cons.IH [of ?slab] Cons.prems(1) by (simp add: Let_def)
qed

lemma fill_count_nth:
  assumes "d < 5" "length slab = 8" "\<forall>c\<in>set slab. length c = 8" "i < 8" "b < 8"
  shows "burst_fill_count d vs slab ! i ! b =
         slab ! i ! b +
         of_nat (length (filter (\<lambda>v. IDX_FROM_VALUE v TRIE_MAX_DEPTH = b) (routed d i vs)))"
  using assms(2,3)
proof (induction vs arbitrary: slab)
  case Nil
  then show ?case by (simp add: routed_def)
next
  case (Cons v vs)
  let ?i = "IDX_FROM_VALUE v d" and ?b = "IDX_FROM_VALUE v TRIE_MAX_DEPTH"
  let ?slab = "slab[?i := (slab ! ?i)[?b := slab ! ?i ! ?b + 1]]"
  have i0: "?i < 8" using assms(1) by (rule IDX_less_8)
  have b0: "?b < 8" using IDX_max_less_2 [of v] by simp
  have len: "length ?slab = 8" using Cons.prems by simp
  have "slab ! ?i \<in> set slab" using i0 Cons.prems(1) by simp
  then have li: "length (slab ! ?i) = 8" using Cons.prems(2) by blast
  have lens: "\<forall>c\<in>set ?slab. length c = 8"
    using Cons.prems li by (auto dest!: set_update_subset_insert [THEN subsetD])
  have upd: "?slab ! i ! b = slab ! i ! b + (if ?i = i \<and> ?b = b then 1 else 0)"
    using i0 b0 assms(4,5) Cons.prems(1) li by (auto simp: nth_list_update)
  have "burst_fill_count d (v # vs) slab ! i ! b = burst_fill_count d vs ?slab ! i ! b"
    by (simp add: Let_def)
  also have "\<dots> = ?slab ! i ! b +
      of_nat (length (filter (\<lambda>v. IDX_FROM_VALUE v TRIE_MAX_DEPTH = b) (routed d i vs)))"
    using len lens by (rule Cons.IH)
  finally show ?case
    by (simp add: upd routed_def)
qed

lemma filter_bucket_below:
  "i < n \<Longrightarrow> filter (\<lambda>v. g v = i) (filter (\<lambda>v. g v < (n::nat)) xs) = filter (\<lambda>v. g v = i) xs"
  by (induction xs) auto

lemma sum_mset_routed:
  "\<forall>v\<in>set xs. g v < n \<Longrightarrow>
   (\<Sum>i\<leftarrow>[0..<n]. mset (filter (\<lambda>v. g v = i) xs)) = mset xs"
proof (induction n arbitrary: xs)
  case 0
  then show ?case by (cases xs) auto
next
  case (Suc n)
  have "(\<Sum>i\<leftarrow>[0..<n]. mset (filter (\<lambda>v. g v = i) xs)) =
        (\<Sum>i\<leftarrow>[0..<n]. mset (filter (\<lambda>v. g v = i) (filter (\<lambda>v. g v < n) xs)))"
    by (intro arg_cong [where f = sum_list] map_cong refl)
       (simp only: set_upt atLeastLessThan_iff filter_bucket_below)
  also have "\<dots> = mset (filter (\<lambda>v. g v < n) xs)"
    by (rule Suc.IH) simp
  finally have "(\<Sum>i\<leftarrow>[0..<Suc n]. mset (filter (\<lambda>v. g v = i) xs)) =
        mset (filter (\<lambda>v. g v < n) xs) + mset (filter (\<lambda>v. g v = n) xs)"
    by simp
  also have "\<dots> = mset xs"
    using Suc.prems by (induction xs) (auto simp: less_Suc_eq)
  finally show ?case .
qed

lemma mset_routed_all:
  "d < 5 \<Longrightarrow> (\<Sum>i\<leftarrow>[0..<8]. mset (routed d i xs)) = mset xs"
  unfolding routed_def by (rule sum_mset_routed) (simp add: IDX_less_8)

lemma sum_list_add_one:
  fixes F G :: "nat \<Rightarrow> 'a multiset"
  assumes "j < n" "F j = add_mset v (G j)" "\<forall>i<n. i \<noteq> j \<longrightarrow> F i = G i"
  shows "(\<Sum>i\<leftarrow>[0..<n]. F i) = add_mset v (\<Sum>i\<leftarrow>[0..<n]. G i)"
  using assms
proof (induction n)
  case 0
  then show ?case by simp
next
  case (Suc n)
  show ?case
  proof (cases "j = n")
    case True
    have "(\<Sum>i\<leftarrow>[0..<n]. F i) = (\<Sum>i\<leftarrow>[0..<n]. G i)"
      using Suc.prems(3) True by (intro arg_cong [where f = sum_list] map_cong refl) auto
    then show ?thesis using Suc.prems(2) True by simp
  next
    case False
    then have "(\<Sum>i\<leftarrow>[0..<n]. F i) = add_mset v (\<Sum>i\<leftarrow>[0..<n]. G i)"
      using Suc.prems by (intro Suc.IH) auto
    moreover have "F n = G n" using Suc.prems(3) False by simp
    ultimately show ?thesis by simp
  qed
qed

lemma routed_disjoint_length:
  "i \<noteq> j \<Longrightarrow> length (routed d i xs) + length (routed d j xs) \<le> length xs"
  unfolding routed_def by (induction xs) auto

section \<open>The invariant: classification, order and enumeration\<close>

lemma tag_bit: "TAG_PTR p AND 1 = 1"
  unfolding TAG_PTR_def by (simp add: bit.conj_disj_distrib2)

lemma tagged_slot0: "(p::u64) AND 1 = 1 \<Longrightarrow> (ucast p :: u16) \<noteq> 0"
  by (metis unsigned_1 unsigned_and_eq zero_and_eq zero_neq_one)

lemma tagged_nonnull: "TAG_PTR p \<noteq> 0"
  using tag_bit [of p] by (metis zero_and_eq zero_neq_one)

lemma determine_shape: "node_inv d q n \<Longrightarrow> trie__determine_node_type n d = shape n"
proof (cases n)
  case (DataNode ds)
  assume "node_inv d q n"
  with DataNode show ?thesis
    by (simp add: trie__determine_node_type_def TRIE_MAX_DEPTH_def)
next
  case (TravelNode link kids)
  assume "node_inv d q n"
  with TravelNode have "d < 5" "link ! 0 \<in> set link" "\<forall>p\<in>set link. p AND 1 = 1"
    by simp_all
  then have "d \<noteq> 5" "(ucast (link ! 0) :: u16) \<noteq> 0"
    using tagged_slot0 by auto
  with TravelNode show ?thesis
    by (simp add: trie__determine_node_type_def TRIE_MAX_DEPTH_def)
next
  case (CountNode cs)
  assume "node_inv d q n"
  with CountNode show ?thesis
    by (simp add: trie__determine_node_type_def TRIE_MAX_DEPTH_def)
qed

lemma unat_of_nat_u16: "n < 65536 \<Longrightarrow> unat (of_nat n :: u16) = n"
  by (simp add: unat_of_nat)

lemma child_prefix:
  assumes "d < 5" "i < 8" "key_prefix (Suc d) v = 8 * q + i"
  shows "key_prefix d v = q" and "IDX_FROM_VALUE v d = i"
proof -
  have "8 * key_prefix d v + IDX_FROM_VALUE v d = 8 * q + i"
    using key_prefix_Suc [OF assms(1), of v] assms(3) by simp
  moreover have "IDX_FROM_VALUE v d < 8" using assms(1) by (rule IDX_less_8)
  ultimately show "key_prefix d v = q" and "IDX_FROM_VALUE v d = i"
    using assms(2) by presburger+
qed

lemma pow8_Suc: "q < 8 ^ d \<Longrightarrow> i < 8 \<Longrightarrow> 8 * q + i < 8 ^ Suc d" for q :: nat
proof -
  assume "q < 8 ^ d" "i < 8"
  then have "8 * q + i < 8 * (q + 1)" by simp
  also have "\<dots> \<le> 8 * 8 ^ d" using \<open>q < 8 ^ d\<close> by (intro mult_le_mono2) simp
  finally show ?thesis by simp
qed

lemma bucket_values:
  assumes "q < 32768"
  shows "unat (of_nat (2 * q) :: u16) = 2 * q" and "unat (of_nat (2 * q + 1) :: u16) = 2 * q + 1"
  using assms by (intro unat_of_nat_u16, simp)+

lemma elems_prefix:
  "node_inv d q n \<Longrightarrow> q < 8 ^ d \<Longrightarrow> v \<in> set (elems d q n) \<Longrightarrow> key_prefix d v = q"
proof (induction d q n arbitrary: v rule: node_inv.induct)
  case (1 d q ds)
  then show ?case by simp
next
  case (2 d q link kids)
  from "2.prems"(1) have d: "d < 5" and len: "length kids = 8"
    and kids: "\<forall>i<8. node_inv (Suc d) (8 * q + i) (kids ! i)"
    by simp_all
  from "2.prems"(3) len obtain i where i: "i < 8"
    and v: "v \<in> set (elems (Suc d) (8 * q + i) (kids ! i))"
    by auto
  have "key_prefix (Suc d) v = 8 * q + i"
    using "2.prems"(1) i kids v pow8_Suc [OF "2.prems"(2) i]
    by (intro "2.IH") simp_all
  with d i show ?case by (rule child_prefix(1))
next
  case (3 d q cs)
  then have q: "q < 32768" by simp
  note u0 = bucket_values(1) [OF q] and u1 = bucket_values(2) [OF q]
  from 3 have "v = of_nat (2 * q) \<or> v = of_nat (2 * q + 1)" by auto
  then have "unat v = 2 * q \<or> unat v = 2 * q + 1"
    using u0 u1 by auto
  moreover from 3 have "d = 5" by simp
  ultimately show ?case by (auto simp: key_prefix_def)
qed

lemma sorted_concat_upt:
  fixes f :: "nat \<Rightarrow> ('a::linorder) list"
  assumes "\<forall>i<n. sorted (f i)"
    and "\<forall>i j. i < j \<longrightarrow> j < n \<longrightarrow> (\<forall>x\<in>set (f i). \<forall>y\<in>set (f j). x \<le> y)"
  shows "sorted (concat (map f [0..<n]))"
  using assms
proof (induction n)
  case 0
  then show ?case by simp
next
  case (Suc n)
  then have "sorted (concat (map f [0..<n]))" by simp
  moreover have "sorted (f n)" using Suc.prems(1) by simp
  moreover have "\<forall>x\<in>set (concat (map f [0..<n])). \<forall>y\<in>set (f n). x \<le> y"
    using Suc.prems(2) by auto
  ultimately show ?case by (simp add: sorted_append)
qed

lemma elems_sorted:
  "node_inv d q n \<Longrightarrow> q < 8 ^ d \<Longrightarrow> sorted (elems d q n)"
proof (induction d q n rule: node_inv.induct)
  case (1 d q ds)
  then show ?case by (simp add: sparse_ok_def Let_def)
next
  case (2 d q link kids)
  from "2.prems"(1) have d: "d < 5" and len: "length kids = 8"
    and kids: "\<forall>i<8. node_inv (Suc d) (8 * q + i) (kids ! i)"
    by simp_all
  have q': "\<And>i. i < 8 \<Longrightarrow> 8 * q + i < 8 ^ Suc d"
    using "2.prems"(2) by (rule pow8_Suc)
  have srt: "\<forall>i<8. sorted (elems (Suc d) (8 * q + i) (kids ! i))"
    using "2.prems"(1) kids q' by (auto intro!: "2.IH")
  have cross: "\<forall>i j. i < j \<longrightarrow> j < 8 \<longrightarrow>
      (\<forall>x\<in>set (elems (Suc d) (8 * q + i) (kids ! i)).
        \<forall>y\<in>set (elems (Suc d) (8 * q + j) (kids ! j)). x \<le> y)"
  proof (intro allI impI ballI)
    fix i j x y
    assume ij: "i < j" "j < 8"
      and x: "x \<in> set (elems (Suc d) (8 * q + i) (kids ! i))"
      and y: "y \<in> set (elems (Suc d) (8 * q + j) (kids ! j))"
    have "key_prefix (Suc d) x = 8 * q + i"
      using kids ij q' x by (intro elems_prefix [where n = "kids ! i"]) auto
    moreover have "key_prefix (Suc d) y = 8 * q + j"
      using kids ij q' y by (intro elems_prefix [where n = "kids ! j"]) auto
    ultimately have "x < y" using ij by (intro key_prefix_less [of "Suc d"]) simp
    then show "x \<le> y" by simp
  qed
  show ?case
    using sorted_concat_upt [OF srt cross] len by simp
next
  case (3 d q cs)
  then have q: "q < 32768" by simp
  have "(of_nat (2 * q) :: u16) \<le> of_nat (2 * q + 1)"
    unfolding word_le_nat_alt bucket_values [OF q] by simp
  then show ?case
    by (simp add: sorted_append del: of_nat_add of_nat_mult)
qed

lemma append_outputs_Inr:
  "append_outputs (map (\<lambda>i. Inr (g i)) is) = Inr (concat (map g is))"
  by (induction "is") auto

lemma slice_consts_cases:
  fixes slot :: nat
  assumes "slot < 8"
  obtains "slot = 0" | "slot = 1" | "slot = 2" | "slot = 3"
    | "slot = 4" | "slot = 5" | "slot = 6" | "slot = 7"
  using assms by linarith

lemma prefix_value_child:
  assumes "d < 5" "i < 8"
  shows "prefix_value (Suc d) (8 * q + i) =
         prefix_value d q + drop_bit (d * MASK_N_BITS) (slice_consts ! i)"
  using assms(1)
proof (cases rule: depth_cases)
  case 1
  with assms(2) show ?thesis
    by (cases rule: slice_consts_cases)
       (simp_all add: prefix_value_def MASK_N_BITS_def slice_consts_def)
next
  case 2
  with assms(2) show ?thesis
    by (cases rule: slice_consts_cases)
       (simp_all add: prefix_value_def MASK_N_BITS_def slice_consts_def)
next
  case 3
  with assms(2) show ?thesis
    by (cases rule: slice_consts_cases)
       (simp_all add: prefix_value_def MASK_N_BITS_def slice_consts_def)
next
  case 4
  with assms(2) show ?thesis
    by (cases rule: slice_consts_cases)
       (simp_all add: prefix_value_def MASK_N_BITS_def slice_consts_def)
next
  case 5
  with assms(2) show ?thesis
    by (cases rule: slice_consts_cases)
       (simp_all add: prefix_value_def MASK_N_BITS_def slice_consts_def)
qed

lemma print_count_node_buckets:
  assumes "q < 32768"
  shows "trie__print_count_node cs (prefix_value 5 q) @
         trie__print_count_node cs (prefix_value 5 q + 1) =
         replicate (unat (cs ! 0)) (of_nat (2 * q)) @ replicate (unat (cs ! 1)) (of_nat (2 * q + 1))"
proof -
  have pv: "prefix_value 5 q = of_nat (2 * q)"
    by (simp add: prefix_value_def mult.commute)
  have pv1: "prefix_value 5 q + 1 = of_nat (2 * q + 1)"
    by (simp add: pv)
  have "IDX_FROM_VALUE (of_nat (2 * q) :: u16) 5 = 0"
    unfolding IDX_5 bucket_values(1) [OF assms] by simp
  moreover have "IDX_FROM_VALUE (of_nat (2 * q + 1) :: u16) 5 = 1"
    unfolding IDX_5 bucket_values(2) [OF assms] by simp
  ultimately show ?thesis
    unfolding pv1 unfolding pv trie__print_count_node_def TRIE_MAX_DEPTH_def by simp
qed

lemma print_elems:
  "node_inv d q n \<Longrightarrow> q < 8 ^ d \<Longrightarrow>
   trie__print_subtrie n (prefix_value d q) d = Inr (elems d q n)"
proof (induction d q n rule: node_inv.induct)
  case (1 d q ds)
  have "trie__determine_node_type (DataNode ds) d = NODE_TYPE_DATA"
    using determine_shape [OF "1.prems"(1)] by simp
  then show ?case
    by (subst trie__print_subtrie.simps) simp
next
  case (2 d q link kids)
  from "2.prems"(1) have d: "d < 5" and len: "length kids = 8"
    and kids: "\<forall>i<8. node_inv (Suc d) (8 * q + i) (kids ! i)"
    by simp_all
  have ty: "trie__determine_node_type (TravelNode link kids) d = NODE_TYPE_TRAVEL"
    using determine_shape [OF "2.prems"(1)] by simp
  have kid: "trie__print_subtrie (kids ! i)
               (prefix_value d q + drop_bit (d * MASK_N_BITS) (slice_consts ! i)) (Suc d) =
             Inr (elems (Suc d) (8 * q + i) (kids ! i))" if "i < 8" for i
  proof -
    have "trie__print_subtrie (kids ! i) (prefix_value (Suc d) (8 * q + i)) (Suc d) =
          Inr (elems (Suc d) (8 * q + i) (kids ! i))"
      using "2.prems"(1) that kids pow8_Suc [OF "2.prems"(2) that]
      by (intro "2.IH") simp_all
    then show ?thesis by (simp add: prefix_value_child [OF d that])
  qed
  have maps: "map (\<lambda>i. trie__print_subtrie (kids ! i)
               (prefix_value d q + drop_bit (d * MASK_N_BITS) (slice_consts ! i)) (Suc d)) [0..<8]
        = map (\<lambda>i. Inr (elems (Suc d) (8 * q + i) (kids ! i))) [0..<8]"
    by (intro map_cong refl) (simp add: kid)
  show ?case
    using ty len
    by (subst trie__print_subtrie.simps) (simp add: maps append_outputs_Inr)
next
  case (3 d q cs)
  then have q: "q < 32768" and d: "d = 5" by simp_all
  have "trie__determine_node_type (CountNode cs) d = NODE_TYPE_COUNT"
    using determine_shape [OF "3.prems"(1)] by simp
  then show ?case
    using print_count_node_buckets [OF q, of cs] d
    by (subst trie__print_subtrie.simps) (simp del: of_nat_add of_nat_mult)
qed

section \<open>Correctness of the burst\<close>

lemma travel_elems_mset:
  assumes "d < 5" "length kids = 8"
    and "\<forall>i<8. mset (elems (Suc d) (8 * q + i) (kids ! i)) = mset (routed d i xs)"
  shows "mset (elems d q (TravelNode link kids)) = mset xs"
proof -
  have "mset (elems d q (TravelNode link kids)) =
        (\<Sum>i\<leftarrow>[0..<8]. mset (elems (Suc d) (8 * q + i) (kids ! i)))"
    using assms(2) by (simp add: mset_concat comp_def)
  also have "\<dots> = (\<Sum>i\<leftarrow>[0..<8]. mset (routed d i xs))"
    using assms(3) by (intro arg_cong [where f = sum_list] map_cong refl) simp
  also have "\<dots> = mset xs"
    using assms(1) by (rule mset_routed_all)
  finally show ?thesis .
qed

lemma link_tags: "\<forall>p\<in>set (slab_links a). p AND 1 = 1"
  by (simp add: slab_links_def tag_bit)

lemma length_slab_links: "length (slab_links a) = 8"
  by (simp add: slab_links_def)

lemma routed_prefix:
  assumes "d < 5" "\<forall>v\<in>set xs. key_prefix d v = q" "v \<in> set (routed d i xs)"
  shows "key_prefix (Suc d) v = 8 * q + i"
proof -
  from assms(3) have "v \<in> set xs" "IDX_FROM_VALUE v d = i" by (simp_all add: routed_def)
  with assms(1,2) show ?thesis by (simp add: key_prefix_Suc)
qed

lemma data_kid:
  assumes "Suc d < 5" "sorted xs" "0 \<notin> set xs" "\<forall>v\<in>set xs. key_prefix d v = q"
    and "length (routed d i xs) < 32"
  shows "node_inv (Suc d) (8 * q + i) (DataNode (right_justified (routed d i xs)))"
    and "elems (Suc d) (8 * q + i) (DataNode (right_justified (routed d i xs))) = routed d i xs"
proof -
  let ?ys = "routed d i xs"
  have nz: "0 \<notin> set ?ys" using assms(3) routed_props(1) [of d i xs] by auto
  have srt: "sorted ?ys" using assms(2) by (rule routed_props(3))
  have pr: "trie__print_data_node (right_justified ?ys) = ?ys"
    using nz by (rule print_right_justified)
  show "elems (Suc d) (8 * q + i) (DataNode (right_justified ?ys)) = ?ys"
    by (simp add: pr)
  have "sparse_ok (right_justified ?ys)"
    using assms(5) nz srt by (intro sparse_ok_right_justified) simp_all
  moreover have "right_justified ?ys ! 0 = 0"
    using assms(5) by (rule right_justified_slot0)
  moreover have "\<forall>v\<in>set ?ys. key_prefix (Suc d) v = 8 * q + i"
    using assms(1,4) by (auto intro!: routed_prefix [where xs = xs])
  ultimately show "node_inv (Suc d) (8 * q + i) (DataNode (right_justified ?ys))"
    using assms(1) by (simp add: pr)
qed

lemma unat_of_nat_u64: "n < 65536 \<Longrightarrow> unat (of_nat n :: u64) = n"
  by (simp add: unat_of_nat)

lemma all_equal_replicate: "\<forall>x\<in>set xs. x = a \<Longrightarrow> xs = replicate (length xs) a"
  by (induction xs) auto

lemma value_of_prefix_5:
  assumes "key_prefix 5 v = p" "IDX_FROM_VALUE v 5 = b"
  shows "v = of_nat (2 * p + b)"
proof -
  have "unat v = 2 * p + b" using unat_key_prefix_5 [of v] assms by simp
  then have "of_nat (unat v) = (of_nat (2 * p + b) :: u16)" by simp
  then show ?thesis by (simp del: of_nat_add of_nat_mult)
qed

lemma count_kid:
  assumes "length xs \<le> 32" "\<forall>v\<in>set xs. key_prefix 4 v = q" "i < 8"
  defines "cs \<equiv> burst_fill_count 4 xs (replicate 8 (replicate 8 0)) ! i"
  shows "node_inv 5 (8 * q + i) (CountNode cs)"
    and "mset (elems 5 (8 * q + i) (CountNode cs)) = mset (routed 4 i xs)"
proof -
  let ?ys = "routed 4 i xs"
  let ?n = "\<lambda>b. length (filter (\<lambda>v. IDX_FROM_VALUE v TRIE_MAX_DEPTH = b) ?ys)"
  have nth: "cs ! b = of_nat (?n b)" if "b < 8" for b
    unfolding cs_def using fill_count_nth [of 4 "replicate 8 (replicate 8 0)" i b xs] assms(3) that
    by simp
  have small: "?n b < 65536" for b
    using length_filter_le [of "\<lambda>v. IDX_FROM_VALUE v TRIE_MAX_DEPTH = b" ?ys]
      routed_props(2) [of 4 i xs] assms(1) by linarith
  have un: "unat (cs ! b) = ?n b" if "b < 8" for b
    using nth [OF that] small [of b] by (simp add: unat_of_nat_u64)
  have len: "length cs = 8"
    unfolding cs_def using fill_count_length [of 4 "replicate 8 (replicate 8 0)" xs] assms(3)
    by simp
  have zero: "cs ! b = 0" if "2 \<le> b" "b < 8" for b
  proof -
    have "IDX_FROM_VALUE v TRIE_MAX_DEPTH \<noteq> b" for v
      using that(1) IDX_max_less_2 [of v] by simp
    then have "filter (\<lambda>v. IDX_FROM_VALUE v TRIE_MAX_DEPTH = b) ?ys = []"
      by (simp add: filter_empty_conv)
    then show ?thesis using nth [OF that(2)] by simp
  qed
  have le: "cs ! b \<le> 65535" if "b < 8" for b
    unfolding word_le_nat_alt un [OF that] using small [of b] by simp
  show "node_inv 5 (8 * q + i) (CountNode cs)"
    using len zero le by simp
  have pre: "key_prefix 5 v = 8 * q + i" if "v \<in> set ?ys" for v
    using routed_prefix [of 4 xs q v i] assms(2) that by simp
  have eq: "v = of_nat (2 * (8 * q + i) + b)"
    if "v \<in> set ?ys" "IDX_FROM_VALUE v TRIE_MAX_DEPTH = b" for v b
    using value_of_prefix_5 [OF pre [OF that(1)], of b] that(2) by (simp add: TRIE_MAX_DEPTH_def)
  have b0: "filter (\<lambda>v. IDX_FROM_VALUE v TRIE_MAX_DEPTH = 0) ?ys =
            replicate (?n 0) (of_nat (2 * (8 * q + i)))"
  proof (rule all_equal_replicate, rule ballI)
    fix x assume "x \<in> set (filter (\<lambda>v. IDX_FROM_VALUE v TRIE_MAX_DEPTH = 0) ?ys)"
    then have "x \<in> set ?ys" "IDX_FROM_VALUE x TRIE_MAX_DEPTH = 0" by simp_all
    from eq [OF this] show "x = of_nat (2 * (8 * q + i))" by simp
  qed
  have b1: "filter (\<lambda>v. IDX_FROM_VALUE v TRIE_MAX_DEPTH = 1) ?ys =
            replicate (?n 1) (of_nat (2 * (8 * q + i) + 1))"
  proof (rule all_equal_replicate, rule ballI)
    fix x assume "x \<in> set (filter (\<lambda>v. IDX_FROM_VALUE v TRIE_MAX_DEPTH = 1) ?ys)"
    then have "x \<in> set ?ys" "IDX_FROM_VALUE x TRIE_MAX_DEPTH = 1" by simp_all
    from eq [OF this] show "x = of_nat (2 * (8 * q + i) + 1)" by simp
  qed
  have un0: "unat (cs ! 0) = ?n 0" using un [of 0] by simp
  have un1: "unat (cs ! 1) = ?n 1" using un [of 1] by simp
  have "elems 5 (8 * q + i) (CountNode cs) =
        replicate (?n 0) (of_nat (2 * (8 * q + i))) @
        replicate (?n 1) (of_nat (2 * (8 * q + i) + 1))"
    by (simp only: elems.simps un0 un1)
  also have "\<dots> = filter (\<lambda>v. IDX_FROM_VALUE v TRIE_MAX_DEPTH = 0) ?ys @
                   filter (\<lambda>v. IDX_FROM_VALUE v TRIE_MAX_DEPTH = 1) ?ys"
    by (rule arg_cong2 [where f = "(@)", OF b0 [symmetric] b1 [symmetric]])
  finally have e: "mset (elems 5 (8 * q + i) (CountNode cs)) =
      mset (filter (\<lambda>v. IDX_FROM_VALUE v TRIE_MAX_DEPTH = 0) ?ys) +
      mset (filter (\<lambda>v. IDX_FROM_VALUE v TRIE_MAX_DEPTH = 1) ?ys)"
    by (simp only: mset_append)
  have "filter (\<lambda>v. IDX_FROM_VALUE v TRIE_MAX_DEPTH = 1) ?ys =
        filter (\<lambda>v. \<not> IDX_FROM_VALUE v TRIE_MAX_DEPTH = 0) ?ys"
  proof (intro filter_cong refl)
    fix x
    show "(IDX_FROM_VALUE x TRIE_MAX_DEPTH = 1) = (\<not> IDX_FROM_VALUE x TRIE_MAX_DEPTH = 0)"
      using IDX_max_less_2 [of x] by linarith
  qed
  then show "mset (elems 5 (8 * q + i) (CountNode cs)) = mset (routed 4 i xs)"
    unfolding e by (simp only: mset_filter multiset_partition [symmetric])
qed

lemma burst_unfold_count:
  "trie__burst_data_node al ds 4 =
   Inr (TravelNode (slab_links (al 4))
          (map CountNode (burst_fill_count 4 (rev ds) (replicate 8 (replicate 8 0)))))"
  by (subst trie__burst_data_node.simps) (simp add: TRIE_MAX_DEPTH_def)

lemma burst_unfold_data:
  assumes "d < 4" "burst_fill_data d (rev ds) (replicate 8 (replicate 32 0), None) = Inr (slab, r)"
  shows "trie__burst_data_node al ds d =
     (case r of
        None \<Rightarrow> Inr (TravelNode (slab_links (al d)) (map DataNode slab))
      | Some j \<Rightarrow>
          (case trie__burst_data_node al (slab ! j) (Suc d) of
             Inl e \<Rightarrow> Inl e
           | Inr c \<Rightarrow> Inr (TravelNode (slab_links (al d)) ((map DataNode slab)[j := c]))))"
  using assms
  by (subst trie__burst_data_node.simps) (simp add: TRIE_MAX_DEPTH_def split: option.split)

lemma travel_node_inv:
  "d < 5 \<Longrightarrow> length kids = 8 \<Longrightarrow> \<forall>i<8. node_inv (Suc d) (8 * q + i) (kids ! i) \<Longrightarrow>
   node_inv d q (TravelNode (slab_links a) kids)"
  using link_tags [of a] by (simp add: length_slab_links)

lemma full_sparseD:
  assumes "full_sparse d q ds"
  shows "d < 5" "q < 8 ^ d" "length (rev ds) = 32" "0 \<notin> set (rev ds)" "sorted (rev ds)"
    "\<forall>v\<in>set (rev ds). key_prefix d v = q"
  using assms by (simp_all add: full_sparse_def)

lemma burst_shape:
  "full_sparse d q ds \<Longrightarrow>
   \<exists>kids. trie__burst_data_node al ds d = Inr (TravelNode (slab_links (al d)) kids) \<and>
     length kids = 8 \<and>
     (\<forall>i<8. node_inv (Suc d) (8 * q + i) (kids ! i) \<and>
            mset (elems (Suc d) (8 * q + i) (kids ! i)) = mset (routed d i (rev ds)))"
proof (induction "4 - d" arbitrary: d q ds)
  case 0
  note fs = full_sparseD [OF "0.prems"]
  from 0(1) fs(1) have d: "d = 4" by simp
  let ?slab = "burst_fill_count 4 (rev ds) (replicate 8 (replicate 8 0))"
  have len: "length ?slab = 8"
    using fill_count_length [of 4 "replicate 8 (replicate 8 0)" "rev ds"] by simp
  have "node_inv 5 (8 * q + i) (map CountNode ?slab ! i) \<and>
        mset (elems 5 (8 * q + i) (map CountNode ?slab ! i)) = mset (routed 4 i (rev ds))"
    if "i < 8" for i
    using count_kid [of "rev ds" q i] fs(3,6) that len by (simp add: d)
  then show ?case
    unfolding d burst_unfold_count using len by (simp add: numeral_eq_Suc)
next
  case (Suc k)
  note fs = full_sparseD [OF Suc.prems]
  from Suc(2) have d: "d < 4" "Suc d < 5" by simp_all
  let ?xs = "rev ds"
  obtain r where fill:
    "burst_fill_data d ?xs (replicate 8 (replicate 32 0), None) = Inr (data_slab d ?xs, r)"
    and r: "case r of None \<Rightarrow> \<forall>i<8. length (routed d i ?xs) < 32
            | Some j \<Rightarrow> j < 8 \<and> length (routed d j ?xs) = 32"
    using fill_data_full [OF fs(1) fs(5) fs(4)] fs(3) by auto
  note unfold = burst_unfold_data [OF d(1) fill, of al]
  have small_kid:
    "node_inv (Suc d) (8 * q + i) (map DataNode (data_slab d ?xs) ! i) \<and>
     mset (elems (Suc d) (8 * q + i) (map DataNode (data_slab d ?xs) ! i)) = mset (routed d i ?xs)"
    if "i < 8" "length (routed d i ?xs) < 32" for i
    using data_kid [OF d(2) fs(5) fs(4) fs(6) that(2)] that(1)
    by (simp add: length_data_slab data_slab_nth)
  show ?case
  proof (cases r)
    case None
    with r have "\<forall>i<8. length (routed d i ?xs) < 32" by simp
    then show ?thesis
      unfolding unfold None using small_kid by (simp add: length_data_slab)
  next
    case (Some j)
    with r have j: "j < 8" and full: "length (routed d j ?xs) = 32" by simp_all
    let ?ys = "routed d j ?xs"
    have slabj: "data_slab d ?xs ! j = rev ?ys"
      using j full by (simp add: data_slab_nth right_justified_full)
    have "full_sparse (Suc d) (8 * q + j) (rev ?ys)"
      unfolding full_sparse_def
      using d(2) pow8_Suc [OF fs(2) j] full fs(4) routed_props(1) [of d j ?xs]
        routed_props(3) [OF fs(5), of d j] routed_prefix [OF fs(1) fs(6), of _ j]
      by auto
    moreover have "k = 4 - Suc d" using Suc(2) by simp
    ultimately obtain kids' where
      rec: "trie__burst_data_node al (rev ?ys) (Suc d) =
            Inr (TravelNode (slab_links (al (Suc d))) kids')"
      and len': "length kids' = 8"
      and kids': "\<forall>i<8. node_inv (Suc (Suc d)) (8 * (8 * q + j) + i) (kids' ! i) \<and>
           mset (elems (Suc (Suc d)) (8 * (8 * q + j) + i) (kids' ! i)) =
           mset (routed (Suc d) i (rev (rev ?ys)))"
      using Suc(1) [of "Suc d" "8 * q + j" "rev ?ys"] by blast
    let ?c = "TravelNode (slab_links (al (Suc d))) kids'"
    have c_inv: "node_inv (Suc d) (8 * q + j) ?c"
      using d(2) len' kids' by (intro travel_node_inv) simp_all
    have c_mset: "mset (elems (Suc d) (8 * q + j) ?c) = mset ?ys"
      using travel_elems_mset [OF d(2) len', of "8 * q + j" "rev (rev ?ys)"] kids' by simp
    have others: "length (routed d i ?xs) < 32" if "i \<noteq> j" for i
      using routed_disjoint_length [OF that, of d ?xs] full fs(3) by simp
    have "node_inv (Suc d) (8 * q + i) ((map DataNode (data_slab d ?xs))[j := ?c] ! i) \<and>
          mset (elems (Suc d) (8 * q + i) ((map DataNode (data_slab d ?xs))[j := ?c] ! i)) =
          mset (routed d i ?xs)" if "i < 8" for i
    proof (cases "i = j")
      case True
      then show ?thesis using c_inv c_mset j by (simp add: length_data_slab)
    next
      case False
      then show ?thesis using small_kid [OF that others [OF False]] by simp
    qed
    then show ?thesis
      unfolding unfold Some by (simp add: slabj rec length_data_slab)
  qed
qed

lemma burst_ok:
  assumes "full_sparse d q ds"
  shows "\<exists>n. trie__burst_data_node al ds d = Inr n \<and> node_inv d q n \<and>
             mset (elems d q n) = mset ds"
proof -
  note fs = full_sparseD [OF assms]
  obtain kids where b: "trie__burst_data_node al ds d = Inr (TravelNode (slab_links (al d)) kids)"
    and len: "length kids = 8"
    and kids: "\<forall>i<8. node_inv (Suc d) (8 * q + i) (kids ! i) \<and>
            mset (elems (Suc d) (8 * q + i) (kids ! i)) = mset (routed d i (rev ds))"
    using burst_shape [OF assms, of al] by blast
  have "node_inv d q (TravelNode (slab_links (al d)) kids)"
    using fs(1) len kids by (intro travel_node_inv) simp_all
  moreover have "mset (elems d q (TravelNode (slab_links (al d)) kids)) = mset ds"
    using travel_elems_mset [OF fs(1) len, of q "rev ds"] kids by simp
  ultimately show ?thesis using b by simp
qed

section \<open>Correctness of the insertion\<close>

lemma counter_increment:
  fixes c :: u64
  assumes "c \<le> 65535" "c \<noteq> 65535"
  shows "unat c < 65535" and "unat (c + 1) = Suc (unat c)" and "c + 1 \<le> 65535"
proof -
  have "unat c \<le> 65535" using assms(1) by (simp add: word_le_nat_alt)
  moreover have "unat c \<noteq> 65535"
  proof
    assume "unat c = 65535"
    then have "of_nat (unat c) = (of_nat 65535 :: u64)" by simp
    then show False using assms(2) by simp
  qed
  ultimately show lt: "unat c < 65535" by simp
  then show suc: "unat (c + 1) = Suc (unat c)"
    by (simp add: unat_word_ariths)
  show "c + 1 \<le> 65535"
    unfolding word_le_nat_alt suc using lt by simp
qed

lemma sum_list_single:
  fixes g :: "nat \<Rightarrow> nat"
  assumes "i < n" "\<forall>j<n. j \<noteq> i \<longrightarrow> g j = 0"
  shows "(\<Sum>j\<leftarrow>[0..<n]. g j) = g i"
  using assms
proof (induction n)
  case 0
  then show ?case by simp
next
  case (Suc n)
  show ?case
  proof (cases "i = n")
    case True
    have "(\<Sum>j\<leftarrow>[0..<n]. g j) = (\<Sum>j\<leftarrow>[0..<n]. 0)"
      using Suc.prems(2) True by (intro arg_cong [where f = sum_list] map_cong refl) auto
    then show ?thesis using True by simp
  next
    case False
    then have "(\<Sum>j\<leftarrow>[0..<n]. g j) = g i" using Suc.prems by (intro Suc.IH) auto
    moreover have "g n = 0" using Suc.prems(2) False by simp
    ultimately show ?thesis by simp
  qed
qed

lemma count_travel:
  assumes inv: "node_inv d q (TravelNode link kids)" and q: "q < 8 ^ d"
    and v: "key_prefix (Suc d) v = 8 * q + i" and i: "i < 8"
  shows "count_list (elems d q (TravelNode link kids)) v =
         count_list (elems (Suc d) (8 * q + i) (kids ! i)) v"
proof -
  from inv have len: "length kids = 8"
    and kids: "\<forall>j<8. node_inv (Suc d) (8 * q + j) (kids ! j)"
    by simp_all
  have other: "count_list (elems (Suc d) (8 * q + j) (kids ! j)) v = 0" if "j < 8" "j \<noteq> i" for j
  proof -
    have "v \<notin> set (elems (Suc d) (8 * q + j) (kids ! j))"
    proof
      assume "v \<in> set (elems (Suc d) (8 * q + j) (kids ! j))"
      then have "key_prefix (Suc d) v = 8 * q + j"
        using kids that(1) pow8_Suc [OF q that(1)] by (intro elems_prefix [where n = "kids ! j"]) auto
      with v that(2) show False by simp
    qed
    then show ?thesis by (rule count_notin)
  qed
  have "count_list (elems d q (TravelNode link kids)) v =
        (\<Sum>j\<leftarrow>[0..<8]. count_list (elems (Suc d) (8 * q + j) (kids ! j)) v)"
    using len by (simp add: count_list_concat comp_def)
  also have "\<dots> = count_list (elems (Suc d) (8 * q + i) (kids ! i)) v"
    using i other by (intro sum_list_single) auto
  finally show ?thesis .
qed

lemma insert_data_ok:
  assumes inv: "node_inv d q (DataNode ds)" and q: "q < 8 ^ d"
    and v: "key_prefix d v = q" "v \<noteq> 0"
  shows "\<exists>n'. trie__insert_at al (DataNode ds) d v = Inr n' \<and> node_inv d q n' \<and>
           mset (elems d q n') = add_mset v (mset (elems d q (DataNode ds))) \<and>
           count_list (elems d q (DataNode ds)) v < 65535"
proof -
  let ?xs = "trie__print_data_node ds"
  let ?ys = "insort v ?xs"
  from inv have d: "d < 5" and ok: "sparse_ok ds" and s0: "ds ! 0 = 0"
    and pre: "\<forall>x\<in>set ?xs. key_prefix d x = q"
    by simp_all
  note sp = sparse_okD [OF ok s0]
  have ty: "trie__determine_node_type (DataNode ds) d = NODE_TYPE_DATA"
    using determine_shape [OF inv] by simp
  have ins: "data_node_insert ds v = Inr (right_justified ?ys)"
    using data_node_insert_right_justified [OF sp(2) sp(4), of v] sp(1) by simp
  have ylen: "length ?ys = Suc (length ?xs)" by simp
  have ynz: "0 \<notin> set ?ys" using sp(4) v(2) by (auto simp: set_insort_key)
  have ysrt: "sorted ?ys" using sp(3) by (simp add: sorted_insort)
  have ypre: "\<forall>x\<in>set ?ys. key_prefix d x = q" using pre v(1) by (auto simp: set_insort_key)
  have cnt: "count_list ?xs v < 65535"
    using count_le_length [of ?xs v] sp(2) by simp
  have unfold: "trie__insert_at al (DataNode ds) d v =
        (if trie__data_node_is_full (right_justified ?ys)
         then trie__burst_data_node al (right_justified ?ys) d
         else Inr (DataNode (right_justified ?ys)))"
    using ty ins by (subst trie__insert_at.simps) simp
  show ?thesis
  proof (cases "length ?ys = 32")
    case True
    have full: "trie__data_node_is_full (right_justified ?ys)"
      using right_justified_slot0_full [OF True ynz] by (simp add: trie__data_node_is_full_def)
    have rj: "right_justified ?ys = rev ?ys" using True by (rule right_justified_full)
    have "full_sparse d q (rev ?ys)"
      using d q True ynz ysrt ypre by (simp add: full_sparse_def)
    then obtain n' where "trie__burst_data_node al (rev ?ys) d = Inr n'" "node_inv d q n'"
      "mset (elems d q n') = mset (rev ?ys)"
      using burst_ok by blast
    then show ?thesis
      using unfold full rj cnt by auto
  next
    case False
    then have small: "length ?ys < 32" using ylen sp(2) by simp
    have notfull: "\<not> trie__data_node_is_full (right_justified ?ys)"
      using right_justified_slot0 [OF small] by (simp add: trie__data_node_is_full_def)
    have pr: "trie__print_data_node (right_justified ?ys) = ?ys"
      using ynz by (rule print_right_justified)
    have "sparse_ok (right_justified ?ys)"
      using small ynz ysrt by (intro sparse_ok_right_justified) simp_all
    then have "node_inv d q (DataNode (right_justified ?ys))"
      using d right_justified_slot0 [OF small] ypre by (simp add: pr)
    then show ?thesis
      using unfold notfull cnt by (simp add: pr)
  qed
qed

lemma count_list_replicate: "count_list (replicate n a) x = (if x = a then n else 0)"
  by (induction n) auto

lemma bucket_values_distinct:
  assumes "q < 32768"
  shows "(of_nat (2 * q) :: u16) \<noteq> of_nat (2 * q + 1)"
proof
  assume "(of_nat (2 * q) :: u16) = of_nat (2 * q + 1)"
  then have "unat (of_nat (2 * q) :: u16) = unat (of_nat (2 * q + 1) :: u16)" by simp
  then show False unfolding bucket_values [OF assms] by simp
qed

lemma insert_count_ok:
  assumes inv: "node_inv d q (CountNode cs)" and q: "q < 8 ^ d"
    and v: "key_prefix d v = q"
  shows "(trie__insert_at al (CountNode cs) d v = Inl AssertionFailed \<and>
          count_list (elems d q (CountNode cs)) v = 65535) \<or>
         (\<exists>n'. trie__insert_at al (CountNode cs) d v = Inr n' \<and> node_inv d q n' \<and>
           mset (elems d q n') = add_mset v (mset (elems d q (CountNode cs))) \<and>
           count_list (elems d q (CountNode cs)) v < 65535)"
proof -
  from inv have d: "d = 5" and len: "length cs = 8"
    and zero: "\<forall>i<8. 2 \<le> i \<longrightarrow> cs ! i = 0" and le: "cs ! 0 \<le> 65535" "cs ! 1 \<le> 65535"
    by simp_all
  from q d have q5: "q < 32768" by simp
  let ?a0 = "of_nat (2 * q) :: u16" and ?a1 = "of_nat (2 * q + 1) :: u16"
  note ne = bucket_values_distinct [OF q5]
  have ty: "trie__determine_node_type (CountNode cs) d = NODE_TYPE_COUNT"
    using determine_shape [OF inv] by simp
  have unfold: "trie__insert_at al (CountNode cs) d v =
      (if cs ! IDX_FROM_VALUE v 5 = 65535 then Inl AssertionFailed
       else Inr (CountNode (cs[IDX_FROM_VALUE v 5 := cs ! IDX_FROM_VALUE v 5 + 1])))"
    using ty by (subst trie__insert_at.simps) (simp add: TRIE_MAX_DEPTH_def USHRT_MAX_def Let_def)
  have el: "elems d q (CountNode cs) = replicate (unat (cs ! 0)) ?a0 @ replicate (unat (cs ! 1)) ?a1"
    by (simp only: elems.simps)
  have cnt0: "count_list (elems d q (CountNode cs)) ?a0 = unat (cs ! 0)"
    unfolding el count_list_append count_list_replicate using ne by simp
  have cnt1: "count_list (elems d q (CountNode cs)) ?a1 = unat (cs ! 1)"
    unfolding el count_list_append count_list_replicate using ne by simp
  have "IDX_FROM_VALUE v 5 < 2" using IDX_max_less_2 [of v] by (simp add: TRIE_MAX_DEPTH_def)
  then consider "IDX_FROM_VALUE v 5 = 0" | "IDX_FROM_VALUE v 5 = 1" by linarith
  then show ?thesis
  proof cases
    case 1
    have v0: "v = ?a0" using value_of_prefix_5 [of v q 0] v d 1 by simp
    have res: "trie__insert_at al (CountNode cs) d v =
      (if cs ! 0 = 65535 then Inl AssertionFailed else Inr (CountNode (cs[0 := cs ! 0 + 1])))"
      unfolding unfold 1 by simp
    have cntv: "count_list (elems d q (CountNode cs)) v = unat (cs ! 0)"
      unfolding v0 by (rule cnt0)
    show ?thesis
    proof (cases "cs ! 0 = 65535")
      case True
      then show ?thesis unfolding res cntv by simp
    next
      case False
      note inc = counter_increment [OF le(1) False]
      let ?cs = "cs[0 := cs ! 0 + 1]"
      have "node_inv d q (CountNode ?cs)"
        using d len zero le(2) inc(3) by simp
      moreover have "elems d q (CountNode ?cs) = ?a0 # elems d q (CountNode cs)"
        using len inc(2) by (simp only: elems.simps) (simp del: of_nat_add of_nat_mult)
      ultimately show ?thesis
        unfolding res cntv using False inc(1) v0 by (simp del: elems.simps node_inv.simps)
    qed
  next
    case 2
    have v1: "v = ?a1" using value_of_prefix_5 [of v q 1] v d 2 by simp
    have res: "trie__insert_at al (CountNode cs) d v =
      (if cs ! 1 = 65535 then Inl AssertionFailed else Inr (CountNode (cs[1 := cs ! 1 + 1])))"
      unfolding unfold 2 by simp
    have cntv: "count_list (elems d q (CountNode cs)) v = unat (cs ! 1)"
      unfolding v1 by (rule cnt1)
    show ?thesis
    proof (cases "cs ! 1 = 65535")
      case True
      then show ?thesis unfolding res cntv by simp
    next
      case False
      note inc = counter_increment [OF le(2) False]
      let ?cs = "cs[1 := cs ! 1 + 1]"
      have "node_inv d q (CountNode ?cs)"
        using d len zero le(1) inc(3) by simp
      moreover have "mset (elems d q (CountNode ?cs)) = add_mset ?a1 (mset (elems d q (CountNode cs)))"
        using len inc(2) by (simp only: elems.simps) (simp del: of_nat_add of_nat_mult)
      ultimately show ?thesis
        unfolding res cntv using False inc(1) v1 by (simp del: elems.simps node_inv.simps)
    qed
  qed
qed

lemma insert_at_ok:
  "node_inv d q n \<Longrightarrow> q < 8 ^ d \<Longrightarrow> key_prefix d v = q \<Longrightarrow> v \<noteq> 0 \<Longrightarrow>
   (trie__insert_at al n d v = Inl AssertionFailed \<and> count_list (elems d q n) v = 65535) \<or>
   (\<exists>n'. trie__insert_at al n d v = Inr n' \<and> node_inv d q n' \<and>
      mset (elems d q n') = add_mset v (mset (elems d q n)) \<and>
      count_list (elems d q n) v < 65535)"
proof (induction d q n rule: node_inv.induct)
  case (1 d q ds)
  then show ?case using insert_data_ok [of d q ds v al] by blast
next
  case (2 d q link kids)
  note inv = "2.prems"(1)
  from inv have d: "d < 5" and len: "length kids = 8" and llen: "length link = 8"
    and tags: "\<forall>p\<in>set link. p AND 1 = 1"
    and kids: "\<forall>j<8. node_inv (Suc d) (8 * q + j) (kids ! j)"
    by simp_all
  define i where "i = IDX_FROM_VALUE v d"
  have i: "i < 8" unfolding i_def using d by (rule IDX_less_8)
  have vi: "key_prefix (Suc d) v = 8 * q + i"
    using key_prefix_Suc [OF d, of v] "2.prems"(3) by (simp add: i_def)
  have qi: "8 * q + i < 8 ^ Suc d" using "2.prems"(2) i by (rule pow8_Suc)
  have ty: "trie__determine_node_type (TravelNode link kids) d = NODE_TYPE_TRAVEL"
    using determine_shape [OF inv] by simp
  have unfold: "trie__insert_at al (TravelNode link kids) d v =
      (case trie__insert_at al (kids ! i) (Suc d) v of
         Inl e \<Rightarrow> Inl e
       | Inr k \<Rightarrow> Inr (TravelNode link (kids[i := k])))"
    unfolding i_def using ty i [unfolded i_def] len
    by (subst trie__insert_at.simps) (simp add: Let_def)
  note cnt = count_travel [OF inv "2.prems"(2) vi i]
  have "(trie__insert_at al (kids ! i) (Suc d) v = Inl AssertionFailed \<and>
         count_list (elems (Suc d) (8 * q + i) (kids ! i)) v = 65535) \<or>
        (\<exists>n'. trie__insert_at al (kids ! i) (Suc d) v = Inr n' \<and>
           node_inv (Suc d) (8 * q + i) n' \<and>
           mset (elems (Suc d) (8 * q + i) n') =
             add_mset v (mset (elems (Suc d) (8 * q + i) (kids ! i))) \<and>
           count_list (elems (Suc d) (8 * q + i) (kids ! i)) v < 65535)"
    using inv i len kids qi vi "2.prems"(4) by (intro "2.IH") simp_all
  then show ?case
  proof (elim disjE conjE exE)
    assume "trie__insert_at al (kids ! i) (Suc d) v = Inl AssertionFailed"
      "count_list (elems (Suc d) (8 * q + i) (kids ! i)) v = 65535"
    then show ?thesis unfolding unfold cnt by simp
  next
    fix k
    assume k: "trie__insert_at al (kids ! i) (Suc d) v = Inr k"
      "node_inv (Suc d) (8 * q + i) k"
      "mset (elems (Suc d) (8 * q + i) k) =
         add_mset v (mset (elems (Suc d) (8 * q + i) (kids ! i)))"
      "count_list (elems (Suc d) (8 * q + i) (kids ! i)) v < 65535"
    let ?kids = "kids[i := k]"
    have inv': "node_inv d q (TravelNode link ?kids)"
      using d llen tags len kids k(2) i by (auto simp: nth_list_update)
    have "mset (elems d q (TravelNode link ?kids)) =
          (\<Sum>j\<leftarrow>[0..<8]. mset (elems (Suc d) (8 * q + j) (?kids ! j)))"
      using len by (simp add: mset_concat comp_def)
    also have "\<dots> = add_mset v (\<Sum>j\<leftarrow>[0..<8]. mset (elems (Suc d) (8 * q + j) (kids ! j)))"
      using i len k(3) by (intro sum_list_add_one [where j = i]) simp_all
    also have "(\<Sum>j\<leftarrow>[0..<8]. mset (elems (Suc d) (8 * q + j) (kids ! j))) =
          mset (elems d q (TravelNode link kids))"
      using len by (simp add: mset_concat comp_def)
    finally have "mset (elems d q (TravelNode link ?kids)) =
        add_mset v (mset (elems d q (TravelNode link kids)))" .
    then show ?thesis
      unfolding unfold cnt using k(1,4) inv' by (simp del: elems.simps node_inv.simps)
  qed
next
  case (3 d q cs)
  then show ?case using insert_count_ok [of d q cs v al] by blast
qed

section \<open>Runs of insertions\<close>

lemma trie_init_inv: "node_inv 0 0 (base_node trie_init)"
proof -
  have p: "trie__print_data_node (replicate 32 0) = []"
    by (simp add: trie__print_data_node_def)
  have "sparse_ok (replicate 32 0)"
    by (simp add: sparse_ok_def p right_justified_def)
  then show ?thesis by (simp add: trie_init_def p)
qed

lemma trie_init_elems: "elems 0 0 (base_node trie_init) = []"
  by (simp add: trie_init_def trie__print_data_node_def)

lemma insert_value_zero:
  "trie_insert_value al t 0 = Inr (t\<lparr>number_of_zeros := number_of_zeros t + 1\<rparr>)"
  by (simp add: trie_insert_value_def)

lemma insert_value_ok:
  assumes "node_inv 0 0 (base_node t)" "v \<noteq> 0"
  shows "(trie_insert_value al t v = Inl AssertionFailed \<and>
          count_list (elems 0 0 (base_node t)) v = 65535) \<or>
         (\<exists>t'. trie_insert_value al t v = Inr t' \<and> node_inv 0 0 (base_node t') \<and>
            number_of_zeros t' = number_of_zeros t \<and>
            mset (elems 0 0 (base_node t')) = add_mset v (mset (elems 0 0 (base_node t))) \<and>
            count_list (elems 0 0 (base_node t)) v < 65535)"
  using insert_at_ok [OF assms(1) _ key_prefix_0 assms(2), of al] assms(2)
  by (auto simp: trie_insert_value_def)

lemma insert_value_inv:
  assumes "trie_insert_value al t v = Inr t'" "node_inv 0 0 (base_node t)"
  shows "node_inv 0 0 (base_node t')"
proof (cases "v = 0")
  case True
  with assms show ?thesis by (auto simp: insert_value_zero)
next
  case False
  from insert_value_ok [OF assms(2) False, of al] assms(1) show ?thesis by auto
qed

lemma insert_values_inv:
  "trie_insert_values al t vs = Inr t' \<Longrightarrow> node_inv 0 0 (base_node t) \<Longrightarrow>
   node_inv 0 0 (base_node t')"
proof (induction vs arbitrary: al t)
  case Nil
  then show ?case by simp
next
  case (Cons v vs)
  from Cons.prems(1) obtain t1 where t1: "trie_insert_value (al 0) t v = Inr t1"
    and rest: "trie_insert_values (\<lambda>k. al (Suc k)) t1 vs = Inr t'"
    by (auto split: sum.splits)
  from insert_value_inv [OF t1 Cons.prems(2)] rest show ?case
    by (rule Cons.IH [rotated])
qed

lemma insert_values_ok:
  assumes "node_inv 0 0 (base_node t)"
    and "\<forall>v. v \<noteq> 0 \<longrightarrow> count_list (elems 0 0 (base_node t)) v + count_list vs v \<le> 65535"
  shows "\<exists>t'. trie_insert_values al t vs = Inr t' \<and> node_inv 0 0 (base_node t') \<and>
           mset (elems 0 0 (base_node t')) =
             mset (elems 0 0 (base_node t)) + mset (filter (\<lambda>v. v \<noteq> 0) vs) \<and>
           number_of_zeros t' = number_of_zeros t + of_nat (count_list vs 0)"
  using assms
proof (induction vs arbitrary: al t)
  case Nil
  then show ?case by simp
next
  case (Cons v vs)
  show ?case
  proof (cases "v = 0")
    case True
    let ?t1 = "t\<lparr>number_of_zeros := number_of_zeros t + 1\<rparr>"
    have "\<exists>t'. trie_insert_values (\<lambda>k. al (Suc k)) ?t1 vs = Inr t' \<and> node_inv 0 0 (base_node t') \<and>
           mset (elems 0 0 (base_node t')) =
             mset (elems 0 0 (base_node ?t1)) + mset (filter (\<lambda>v. v \<noteq> 0) vs) \<and>
           number_of_zeros t' = number_of_zeros ?t1 + of_nat (count_list vs 0)"
      using Cons.prems True by (intro Cons.IH) auto
    then show ?thesis using True by (auto simp: insert_value_zero)
  next
    case False
    have "count_list (elems 0 0 (base_node t)) v < 65535"
      using Cons.prems(2) False by (auto dest!: spec [where x = v])
    with insert_value_ok [OF Cons.prems(1) False, of "al 0"]
    obtain t1 where t1: "trie_insert_value (al 0) t v = Inr t1" "node_inv 0 0 (base_node t1)"
      "number_of_zeros t1 = number_of_zeros t"
      "mset (elems 0 0 (base_node t1)) = add_mset v (mset (elems 0 0 (base_node t)))"
      by auto
    have c1: "count_list (elems 0 0 (base_node t1)) x =
              count_list (elems 0 0 (base_node t)) x + (if x = v then 1 else 0)" for x
      using arg_cong [OF t1(4), of "\<lambda>M. count M x"] by (simp add: count_mset)
    have "\<forall>x. x \<noteq> 0 \<longrightarrow> count_list (elems 0 0 (base_node t1)) x + count_list vs x \<le> 65535"
    proof (intro allI impI)
      fix x :: u16 assume "x \<noteq> 0"
      then have "count_list (elems 0 0 (base_node t)) x + count_list (v # vs) x \<le> 65535"
        using Cons.prems(2) by blast
      then show "count_list (elems 0 0 (base_node t1)) x + count_list vs x \<le> 65535"
        by (simp add: c1 split: if_splits)
    qed
    then have "\<exists>t'. trie_insert_values (\<lambda>k. al (Suc k)) t1 vs = Inr t' \<and>
        node_inv 0 0 (base_node t') \<and>
        mset (elems 0 0 (base_node t')) =
          mset (elems 0 0 (base_node t1)) + mset (filter (\<lambda>v. v \<noteq> 0) vs) \<and>
        number_of_zeros t' = number_of_zeros t1 + of_nat (count_list vs 0)"
      using t1(2) by (intro Cons.IH)
    then show ?thesis using False t1 by auto
  qed
qed

lemma print_values_elems:
  assumes "node_inv 0 0 (base_node t)"
  shows "trie_print_values t =
         Inr (replicate (unat (number_of_zeros t)) 0 @ elems 0 0 (base_node t))"
proof -
  have "prefix_value 0 0 = 0" by (simp add: prefix_value_def)
  then show ?thesis
    using print_elems [OF assms] by (simp add: trie_print_values_def)
qed

lemma insert_values_append:
  "trie_insert_values al t (xs @ [v]) =
     (case trie_insert_values al t xs of
        Inl e \<Rightarrow> Inl e
      | Inr t' \<Rightarrow> trie_insert_value (al (length xs)) t' v)"
proof (induction xs arbitrary: al t)
  case Nil
  then show ?case by (simp split: sum.split)
next
  case (Cons x xs)
  then show ?case by (simp split: sum.split)
qed

section \<open>The oracle and the sorted enumeration\<close>

lemma oracle_fold:
  "length a = 65536 \<Longrightarrow> i < 65536 \<Longrightarrow>
   length (foldl oracle_insert a vs) = 65536 \<and>
   foldl oracle_insert a vs ! i = a ! i + of_nat (count_list (map unat vs) i)"
proof (induction vs arbitrary: a)
  case Nil
  then show ?case by simp
next
  case (Cons v vs)
  have v: "unat v < 65536" using unsigned_less [of v, where 'a = nat] by simp
  let ?a = "oracle_insert a v"
  have len: "length ?a = 65536" using Cons.prems(1) by (simp add: oracle_insert_def)
  have "?a ! i = a ! i + (if unat v = i then 1 else 0)"
    using Cons.prems v by (simp add: oracle_insert_def nth_list_update)
  then show ?case
    using Cons.IH [OF len Cons.prems(2)] by simp
qed

lemma sum_replicate_counts:
  "\<forall>x\<in>set xs. x < n \<Longrightarrow>
   (\<Sum>i\<leftarrow>[0..<n]. replicate_mset (count_list xs i) i) = mset (xs :: nat list)"
proof (induction xs)
  case Nil
  have "(\<Sum>i\<leftarrow>[0..<n]. ({#} :: nat multiset)) = {#}" by (induction n) simp_all
  then show ?case by simp
next
  case (Cons x xs)
  have "(\<Sum>i\<leftarrow>[0..<n]. replicate_mset (count_list (x # xs) i) i) =
        add_mset x (\<Sum>i\<leftarrow>[0..<n]. replicate_mset (count_list xs i) i)"
    using Cons.prems by (intro sum_list_add_one [where j = x]) simp_all
  then show ?case using Cons by simp
qed

lemma counting_sort:
  assumes "\<forall>x\<in>set xs. x < n"
  shows "concat (map (\<lambda>i. replicate (count_list xs i) i) [0..<n]) = sort (xs :: nat list)"
proof (rule properties_for_sort [symmetric])
  show "mset (concat (map (\<lambda>i. replicate (count_list xs i) i) [0..<n])) = mset xs"
    using sum_replicate_counts [OF assms] by (simp add: mset_concat comp_def)
  show "sorted (concat (map (\<lambda>i. replicate (count_list xs i) i) [0..<n]))"
    by (rule sorted_concat_upt) auto
qed

lemma sorted_map_unat: "sorted (map unat xs) = sorted (xs :: u16 list)"
  by (simp add: sorted_map flip: word_le_nat_alt)

lemma map_unat_sort: "map unat (sort xs) = sort (map unat (xs :: u16 list))"
  by (rule properties_for_sort [symmetric]) (simp_all add: sorted_map_unat)

lemma count_list_map_unat:
  "count_list (map unat vs) (unat v) = count_list vs (v :: u16)"
  by (induction vs) (auto simp: word_unat_eq_iff)

lemma oracle_sorted:
  assumes "\<forall>v. count_list vs v < 2 ^ 64"
  shows "oracle_print (foldl oracle_insert oracle_init vs) = map unat (sort vs)"
proof -
  let ?xs = "map unat vs"
  have small: "\<forall>x\<in>set ?xs. x < 65536"
    using unsigned_less [where 'a = nat and 'b = 16] by auto
  have bound: "count_list ?xs i < 2 ^ 64" for i
  proof (cases "i \<in> set ?xs")
    case True
    then obtain v :: u16 where "i = unat v" by auto
    then show ?thesis using assms count_list_map_unat [of vs v] by simp
  next
    case False
    then show ?thesis by simp
  qed
  have "unat (foldl oracle_insert oracle_init vs ! i) = count_list ?xs i" if "i < 65536" for i
    using oracle_fold [of oracle_init i vs] that bound [of i]
    by (simp add: oracle_init_def unat_of_nat)
  then have "oracle_print (foldl oracle_insert oracle_init vs) =
             concat (map (\<lambda>i. replicate (count_list ?xs i) i) [0..<65536])"
    unfolding oracle_print_def
    by (intro arg_cong [where f = concat] map_cong refl) simp
  also have "\<dots> = sort ?xs" using small by (rule counting_sort)
  finally show ?thesis by (simp add: map_unat_sort)
qed

lemma zeros_and_rest:
  "replicate_mset (count_list vs 0) 0 + mset (filter (\<lambda>v. v \<noteq> 0) vs) = mset (vs :: u16 list)"
  by (induction vs) auto

lemma enumeration_sorted:
  assumes nz: "\<forall>v. v \<noteq> 0 \<longrightarrow> count_list vs v \<le> 65535" and z: "count_list vs 0 < 2 ^ 64"
  shows "\<exists>t. trie_insert_values al trie_init vs = Inr t \<and> node_inv 0 0 (base_node t) \<and>
           trie_print_values t = Inr (sort vs)"
proof -
  have "\<forall>v. v \<noteq> 0 \<longrightarrow> count_list (elems 0 0 (base_node trie_init)) v + count_list vs v \<le> 65535"
    using nz by (simp add: trie_init_elems)
  moreover have z0: "number_of_zeros trie_init = 0" by (simp add: trie_init_def)
  ultimately
  obtain t where t: "trie_insert_values al trie_init vs = Inr t" "node_inv 0 0 (base_node t)"
    "mset (elems 0 0 (base_node t)) = mset (filter (\<lambda>v. v \<noteq> 0) vs)"
    "number_of_zeros t = of_nat (count_list vs 0)"
    using insert_values_ok [OF trie_init_inv, of vs al] by (auto simp: trie_init_elems)
  let ?out = "replicate (count_list vs 0) 0 @ elems 0 0 (base_node t)"
  have "unat (number_of_zeros t) = count_list vs 0"
    using z by (simp add: t(4) unat_of_nat)
  then have pr: "trie_print_values t = Inr ?out"
    using print_values_elems [OF t(2)] by simp
  have "mset ?out = mset vs"
    using zeros_and_rest [of vs] by (simp add: t(3))
  moreover have "sorted ?out"
    using elems_sorted [OF t(2)] by (simp add: sorted_append)
  ultimately have "sort vs = ?out" by (rule properties_for_sort)
  then show ?thesis using t(1,2) pr by simp
qed

section \<open>Reachable nodes and the runs of the unit tests\<close>

lemma reachable_nodes_inv:
  "node_inv d q n \<Longrightarrow> q < 8 ^ d \<Longrightarrow> (d', m) \<in> set (reachable_nodes d n) \<Longrightarrow>
   \<exists>q'. q' < 8 ^ d' \<and> node_inv d' q' m"
proof (induction d q n rule: node_inv.induct)
  case (1 d q ds)
  then show ?case by auto
next
  case (2 d q link kids)
  from "2.prems"(1) have len: "length kids = 8"
    and kids: "\<forall>i<8. node_inv (Suc d) (8 * q + i) (kids ! i)"
    by simp_all
  from "2.prems"(3) consider "(d', m) = (d, TravelNode link kids)"
    | k where "k \<in> set kids" "(d', m) \<in> set (reachable_nodes (Suc d) k)"
    by auto
  then show ?case
  proof cases
    case 1
    then show ?thesis using "2.prems"(1,2) by blast
  next
    case 2
    from 2(1) len obtain i where i: "i < 8" "k = kids ! i"
      by (auto simp: in_set_conv_nth)
    show ?thesis
      using "2.prems"(1) i kids pow8_Suc [OF "2.prems"(2) i(1)] 2(2)
      by (intro "2.IH" [of i]) simp_all
  qed
next
  case (3 d q cs)
  then show ?case by auto
qed

lemma reachable_inv:
  assumes "trie_insert_values al trie_init vs = Inr t"
    and "(d, n) \<in> set (reachable_nodes 0 (base_node t))"
  shows "\<exists>q. q < 8 ^ d \<and> node_inv d q n"
  using reachable_nodes_inv [OF insert_values_inv [OF assms(1) trie_init_inv] _ assms(2)]
  by simp

lemma run_succeeds:
  assumes "\<forall>v. v \<noteq> 0 \<longrightarrow> count_list vs v \<le> 65535" "count_list vs 0 < 2 ^ 64"
  shows "trie_insert_values al trie_init vs = Inr (projr (trie_insert_values al trie_init vs))"
  using enumeration_sorted [OF assms, of al] by auto

lemma run_counting_bucket:
  "trie_insert_values slabs trie_init test_simple_counting_bucket =
   Inr (projr (trie_insert_values slabs trie_init test_simple_counting_bucket))"
  by (rule run_succeeds) (simp_all add: test_simple_counting_bucket_def count_list_replicate)

lemma run_simple_burst:
  "trie_insert_values slabs trie_init test_simple_burst =
   Inr (projr (trie_insert_values slabs trie_init test_simple_burst))"
  by (rule run_succeeds) (simp_all add: test_simple_burst_def)

lemma count_node_of_counting_bucket:
  "(5, CountNode [0, 40, 0, 0, 0, 0, 0, 0]) \<in>
   set (reachable_nodes 0
     (base_node (projr (trie_insert_values slabs trie_init test_simple_counting_bucket))))"
  by code_simp

lemma data_node_of_simple_burst:
  "(4, DataNode [0, 0, 0, 0, 0, 0, 0, 0, 0, 0, 0, 0, 0, 0, 0, 0,
                 31, 30, 29, 28, 27, 26, 25, 24, 23, 22, 21, 20, 19, 18, 17, 16]) \<in>
   set (reachable_nodes 0
     (base_node (projr (trie_insert_values slabs trie_init test_simple_burst))))"
  by code_simp

lemma occupied_right_justified: "0 \<notin> set xs \<Longrightarrow> occupied (right_justified xs) = rev xs"
proof -
  assume nz: "0 \<notin> set xs"
  have "dropWhile (\<lambda>x. x = 0) (rev xs) = rev xs"
    using nz by (cases "rev xs") (auto simp: dropWhile_eq_Cons_conv)
  then show ?thesis
    unfolding occupied_def right_justified_def
    by (subst dropWhile_append2) simp_all
qed

lemma data_node_layout:
  assumes "node_inv d q (DataNode ds)"
  shows "length ds = 32 \<and> ds ! 0 = 0 \<and> 0 \<notin> set (occupied ds) \<and> sorted (rev (occupied ds))"
proof -
  from assms have ok: "sparse_ok ds" and s0: "ds ! 0 = 0" by simp_all
  note sp = sparse_okD [OF ok s0]
  have "occupied ds = rev (trie__print_data_node ds)"
    using occupied_right_justified [OF sp(4)] sp(1) by simp
  moreover have "length ds = 32"
    using length_right_justified [of "trie__print_data_node ds"] sp(1,2) by simp
  ultimately show ?thesis using sp(3,4) s0 by simp
qed

lemma short_run:
  "length vs \<le> 65535 \<Longrightarrow> (\<forall>v. v \<noteq> 0 \<longrightarrow> count_list vs v \<le> 65535) \<and> count_list vs 0 < 2 ^ 64"
proof -
  assume a: "length vs \<le> 65535"
  have c: "count_list vs v \<le> 65535" for v
    using count_le_length [of vs v] a by linarith
  have "count_list vs 0 < 2 ^ 64"
    using c [of 0] by simp
  with c show ?thesis by simp
qed

lemma burst_reachable_inv:
  assumes "full_sparse d q ds" "trie__burst_data_node al ds d = Inr n"
    and "(e, m) \<in> set (reachable_nodes d n)"
  shows "\<exists>q'. q' < 8 ^ e \<and> node_inv e q' m"
proof -
  from burst_ok [OF assms(1), of al] assms(2) have "node_inv d q n" by auto
  moreover have "q < 8 ^ d" using assms(1) by (simp add: full_sparse_def)
  ultimately show ?thesis using assms(3) by (rule reachable_nodes_inv)
qed

lemma data_node_suffix:
  assumes "node_inv d q (DataNode ds)"
  shows "ds = replicate (32 - length (occupied ds)) 0 @ occupied ds"
proof -
  from assms have ok: "sparse_ok ds" and s0: "ds ! 0 = 0" by simp_all
  note sp = sparse_okD [OF ok s0]
  have "occupied ds = rev (trie__print_data_node ds)"
    using occupied_right_justified [OF sp(4)] sp(1) by simp
  then show ?thesis using sp(1) by (simp add: right_justified_def)
qed

lemma run_full_node_example:
  "trie__burst_data_node (slabs 0) full_node_example 0 =
   Inr (projr (trie__burst_data_node (slabs 0) full_node_example 0))"
proof -
  have "full_sparse 0 0 full_node_example"
    by (simp add: full_sparse_def key_prefix_0 full_node_example_def word_le_nat_alt)
  from burst_ok [OF this, of "slabs 0"] show ?thesis by auto
qed

lemma data_node_of_full_node_example:
  "(4, DataNode [0, 0, 0, 0, 0, 0, 0, 0, 0, 0, 0, 0, 0, 0, 0, 0,
                 31, 30, 29, 28, 27, 26, 25, 24, 23, 22, 21, 20, 19, 18, 17, 16]) \<in>
   set (reachable_nodes 0 (projr (trie__burst_data_node (slabs 0) full_node_example 0)))"
  by code_simp

lemma insert_at_count_node:
  "trie__insert_at al (CountNode cs) TRIE_MAX_DEPTH v =
     (if cs ! IDX_FROM_VALUE v TRIE_MAX_DEPTH = 65535 then Inl AssertionFailed
      else Inr (CountNode (cs[IDX_FROM_VALUE v TRIE_MAX_DEPTH :=
                  cs ! IDX_FROM_VALUE v TRIE_MAX_DEPTH + 1])))"
  by (subst trie__insert_at.simps)
     (simp add: trie__determine_node_type_def USHRT_MAX_def Let_def)

lemma count_node_bounds:
  assumes "node_inv d q (CountNode cs)" "i < 8"
  shows "cs ! i \<le> 65535" and "2 \<le> i \<Longrightarrow> cs ! i = 0"
proof -
  from assms(1) have z: "\<forall>i<8. 2 \<le> i \<longrightarrow> cs ! i = 0"
    and le: "cs ! 0 \<le> 65535" "cs ! 1 \<le> 65535" by simp_all
  show "2 \<le> i \<Longrightarrow> cs ! i = 0" using z assms(2) by simp
  consider "i = 0" | "i = 1" | "2 \<le> i" by linarith
  then show "cs ! i \<le> 65535"
    using le z assms(2) by cases simp_all
qed

lemma data_node_not_full:
  "node_inv d q (DataNode ds) \<Longrightarrow> \<not> trie__data_node_is_full ds"
  by (simp add: trie__data_node_is_full_def)

lemma shape_depth: "node_inv d q n \<Longrightarrow> (shape n = NODE_TYPE_COUNT) = (d = TRIE_MAX_DEPTH)"
  by (cases n) (auto simp: TRIE_MAX_DEPTH_def)

lemma routed_rev: "mset (routed d i (rev xs)) = mset (routed d i xs)"
  by (simp add: routed_def)

lemma slab_links_nonnull: "i < 8 \<Longrightarrow> slab_links a ! i \<noteq> 0"
  unfolding slab_links_def by (subst nth_map) (simp_all add: tagged_nonnull)

section \<open>The outcome of the redistribution\<close>

lemma filter_all_length:
  "length (filter P xs) = length xs \<Longrightarrow> \<forall>x\<in>set xs. P x"
proof -
  assume "length (filter P xs) = length xs"
  then have "length (filter (\<lambda>x. \<not> P x) xs) = 0"
    using sum_length_filter_compl [of P xs] by simp
  then show ?thesis by (simp add: filter_empty_conv)
qed

lemma burst_fill_outcome:
  assumes "full_sparse d q ds" "d < 4"
  shows "((\<forall>v\<in>set ds. IDX_FROM_VALUE v d = j) \<longrightarrow>
            burst_fill_data d (rev ds) (replicate 8 (replicate 32 0), None) =
              Inr (data_slab d (rev ds), Some j) \<and> j < 8 \<and>
            data_slab d (rev ds) = (replicate 8 (replicate 32 0))[j := ds]) \<and>
         (\<not> (\<exists>j. \<forall>v\<in>set ds. IDX_FROM_VALUE v d = j) \<longrightarrow>
            burst_fill_data d (rev ds) (replicate 8 (replicate 32 0), None) =
              Inr (data_slab d (rev ds), None) \<and>
            (\<forall>i<8. length (routed d i (rev ds)) < 32))"
proof -
  note fs = full_sparseD [OF assms(1)]
  let ?xs = "rev ds"
  obtain r where fill:
    "burst_fill_data d ?xs (replicate 8 (replicate 32 0), None) = Inr (data_slab d ?xs, r)"
    and r: "case r of None \<Rightarrow> \<forall>i<8. length (routed d i ?xs) < 32
            | Some j \<Rightarrow> j < 8 \<and> length (routed d j ?xs) = 32"
    using fill_data_full [OF fs(1) fs(5) fs(4)] fs(3) by auto
  have same: "r = Some j \<and> j < 8 \<and> data_slab d ?xs = (replicate 8 (replicate 32 0))[j := ds]"
    if all: "\<forall>v\<in>set ds. IDX_FROM_VALUE v d = j"
  proof -
    have ne: "ds \<noteq> []" using fs(3) by auto
    then obtain v where "v \<in> set ds" by (cases ds) auto
    then have j: "j < 8" using all IDX_less_8 [OF fs(1), of v] by auto
    have rj: "routed d j ?xs = ?xs" using all by (simp add: routed_def)
    have ri: "routed d i ?xs = []" if "i \<noteq> j" for i
      using all that by (auto simp: routed_def filter_empty_conv)
    have "r = Some j"
    proof (cases r)
      case None
      with r j have "length (routed d j ?xs) < 32" by simp
      with rj fs(3) show ?thesis by simp
    next
      case (Some j')
      with r have "length (routed d j' ?xs) = 32" by simp
      then have "j' = j" using ri [of j'] by (cases "j' = j") auto
      with Some show ?thesis by simp
    qed
    moreover have "data_slab d ?xs = (replicate 8 (replicate 32 0))[j := ds]"
    proof (rule nth_equalityI)
      show "length (data_slab d ?xs) = length ((replicate 8 (replicate 32 (0::u16)))[j := ds])"
        by (simp add: length_data_slab)
    next
      fix i assume "i < length (data_slab d ?xs)"
      then have i: "i < 8" by (simp add: length_data_slab)
      show "data_slab d ?xs ! i = (replicate 8 (replicate 32 0))[j := ds] ! i"
      proof (cases "i = j")
        case True
        then show ?thesis
          using i fs(3) by (simp add: data_slab_nth rj right_justified_full)
      next
        case False
        then show ?thesis
          using i by (simp add: data_slab_nth ri right_justified_def)
      qed
    qed
    ultimately show ?thesis using j by simp
  qed
  have differ: "r = None \<and> (\<forall>i<8. length (routed d i ?xs) < 32)"
    if none: "\<not> (\<exists>j. \<forall>v\<in>set ds. IDX_FROM_VALUE v d = j)"
  proof (cases r)
    case None
    with r show ?thesis by simp
  next
    case (Some j')
    with r have "length (routed d j' ?xs) = length ?xs" using fs(3) by simp
    then have "\<forall>v\<in>set ?xs. IDX_FROM_VALUE v d = j'"
      unfolding routed_def by (rule filter_all_length)
    with none show ?thesis by auto
  qed
  show ?thesis using fill same differ by auto
qed

lemma burst_same_child:
  assumes "full_sparse d q ds" "d < 4" "\<forall>v\<in>set ds. IDX_FROM_VALUE v d = j"
  shows "\<exists>c. trie__burst_data_node al ds (Suc d) = Inr c \<and>
           trie__burst_data_node al ds d =
             Inr (TravelNode (slab_links (al d)) ((replicate 8 (DataNode (replicate 32 0)))[j := c]))"
proof -
  note fs = full_sparseD [OF assms(1)]
  from burst_fill_outcome [OF assms(1,2), of j] assms(3)
  have fill: "burst_fill_data d (rev ds) (replicate 8 (replicate 32 0), None) =
              Inr (data_slab d (rev ds), Some j)"
    and j: "j < 8"
    and slab: "data_slab d (rev ds) = (replicate 8 (replicate 32 0))[j := ds]"
    by simp_all
  have "\<forall>v\<in>set ds. key_prefix (Suc d) v = 8 * q + j"
    using fs(1,6) assms(3) by (simp add: key_prefix_Suc)
  then have "full_sparse (Suc d) (8 * q + j) ds"
    using assms(1,2) pow8_Suc [OF fs(2) j] by (simp add: full_sparse_def)
  then obtain c where c: "trie__burst_data_node al ds (Suc d) = Inr c"
    using burst_ok by blast
  have "map DataNode ((replicate 8 (replicate 32 (0::u16)))[j := ds]) =
        (replicate 8 (DataNode (replicate 32 0)))[j := DataNode ds]"
    by (simp add: map_update)
  then have "trie__burst_data_node al ds d =
        Inr (TravelNode (slab_links (al d)) ((replicate 8 (DataNode (replicate 32 0)))[j := c]))"
    using burst_unfold_data [OF assms(2) fill, of al] j c by (simp add: slab)
  with c show ?thesis by simp
qed


lemma ones_full: "d < 5 \<Longrightarrow> full_sparse d 0 (replicate 32 1)"
  by (erule depth_cases) (simp_all add: full_sparse_def key_prefix_def)

lemma ones_idx: "d < 5 \<Longrightarrow> IDX_FROM_VALUE 1 d = 0"
  by (erule depth_cases) (simp_all add: IDX_0 IDX_1 [unfolded One_nat_def] IDX_2 IDX_3 IDX_4)

lemma update_same_slot:
  assumes "(replicate 8 z)[0 := a] = (replicate 8 z)[0 := b]"
  shows "a = b"
  using arg_cong [OF assms, of "\<lambda>l. l ! 0"] by simp

lemma filter_nonzero_right_justified:
  "0 \<notin> set ys \<Longrightarrow> filter (\<lambda>x. x \<noteq> 0) (right_justified ys) = rev ys"
  by (auto simp: right_justified_def filter_id_conv)

lemma placement_step:
  assumes "d < 5" "sorted xs" "0 \<notin> set xs" "length xs \<le> 32" "k < length xs"
  shows "\<exists>slab r. burst_fill_data d (take k xs) (replicate 8 (replicate 32 0), None) = Inr (slab, r) \<and>
           (let v = xs ! k; c = slab ! IDX_FROM_VALUE v d;
                p = 31 - length (filter (\<lambda>x. x \<noteq> 0) c)
            in burst_scan c v 31 = Inr p \<and> p < 32 \<and> c ! p = 0 \<and>
               (\<forall>x\<in>set c. x \<noteq> 0 \<longrightarrow> x \<le> v))"
proof -
  let ?ps = "take k xs" and ?v = "xs ! k"
  let ?i = "IDX_FROM_VALUE ?v d"
  let ?ys = "routed d ?i ?ps"
  have srt: "sorted ?ps" using assms(2) by (rule sorted_wrt_take)
  have nz: "0 \<notin> set ?ps" using assms(3) by (auto dest: in_set_takeD)
  have len: "length ?ps \<le> 32" using assms(4) by simp
  obtain r where fill:
    "burst_fill_data d ?ps (replicate 8 (replicate 32 0), None) = Inr (data_slab d ?ps, r)"
    using fill_data_full [OF assms(1) srt nz len] by blast
  have i: "?i < 8" using assms(1) by (rule IDX_less_8)
  have c: "data_slab d ?ps ! ?i = right_justified ?ys" using i by (rule data_slab_nth)
  have ylen: "length ?ys < 32"
    using routed_props(2) [of d ?i ?ps] assms(4,5) by simp
  have sub: "set ?ys \<subseteq> set ?ps" by (rule routed_props(1))
  have ynz: "0 \<notin> set ?ys" using sub nz by auto
  have le: "x \<le> ?v" if "x \<in> set ?ps" for x
  proof -
    from that obtain j where j: "j < k" "x = xs ! j"
      using assms(5) by (auto simp: in_set_conv_nth)
    then show ?thesis using sorted_nth_mono [OF assms(2), of j k] assms(5) by simp
  qed
  have yle: "\<forall>y\<in>set ?ys. y \<le> ?v" using sub le by auto
  have scan: "burst_scan (right_justified ?ys) ?v 31 = Inr (31 - length ?ys)"
    using ylen ynz yle by (rule burst_scan_right_justified)
  have f: "filter (\<lambda>x. x \<noteq> 0) (right_justified ?ys) = rev ?ys"
    using ynz by (rule filter_nonzero_right_justified)
  have empty: "right_justified ?ys ! (31 - length ?ys) = 0"
    using ylen by (rule right_justified_place(2))
  have occ: "\<forall>x\<in>set (right_justified ?ys). x \<noteq> 0 \<longrightarrow> x \<le> ?v"
    using yle by (auto simp: right_justified_def)
  show ?thesis
    using fill scan empty occ by (simp add: c f Let_def)
qed

lemma wrong_order_loses:
  "burst_fill_data 0 [5, 3] (replicate 8 (replicate 32 0), None) =
   Inr ((replicate 8 (replicate 32 0))[0 := (replicate 32 0)[31 := 3]], None)"
  by code_simp


lemma right_order_keeps:
  "burst_fill_data 0 [3, 5] (replicate 8 (replicate 32 0), None) =
   Inr ((replicate 8 (replicate 32 0))[0 := (replicate 32 0)[31 := 3, 30 := 5]], None)"
  by code_simp

section \<open>The addresses of a slab\<close>

text \<open>
  For a slab at an address as \<open>aligned_alloc\<close> returns it, removing the tag of a link
  gives back the address of its node; the eight addresses are not null and pairwise
  different.
\<close>

lemma untag_tag: "p AND 1 = 0 \<Longrightarrow> UNTAG_PTR (TAG_PTR p) = p"
  for p :: u64
  unfolding UNTAG_PTR_def TAG_PTR_def
  by (simp add: bit_eq_iff bit_simps) metis

lemma unat_slab_node:
  assumes "unat a + 512 \<le> 2 ^ 64" and "i < 8"
  shows "unat (slab_node a i) = unat a + 64 * i"
proof -
  have "slab_node a i = of_nat (unat a + 64 * i)"
    by (simp add: slab_node_def)
  moreover have "unat a + 64 * i < 2 ^ 64"
    using assms by simp
  ultimately show ?thesis
    by (simp add: unat_of_nat del: of_nat_add of_nat_mult)
qed

lemma aligned_unat:
  "a AND (CACHE_LINE_SIZE - 1) = 0 \<Longrightarrow> unat a mod 64 = 0"
proof -
  assume h: "a AND (CACHE_LINE_SIZE - 1) = 0"
  have "(CACHE_LINE_SIZE - 1) = mask 6"
    by (simp add: CACHE_LINE_SIZE_def mask_eq_exp_minus_1)
  with h have "take_bit 6 a = 0"
    by (simp add: take_bit_eq_mask)
  then have "unat (take_bit 6 a) = 0"
    by simp
  then show ?thesis
    by (simp add: unsigned_take_bit_eq take_bit_nat_def)
qed

lemma slab_node_untagged:
  assumes "a AND (CACHE_LINE_SIZE - 1) = 0"
  shows "slab_node a i AND 1 = 0"
proof -
  from aligned_unat [OF assms] obtain k where k: "unat a = 64 * k"
    by auto
  have "a = of_nat (unat a)"
    by simp
  then have "a = of_nat (64 * k)"
    unfolding k .
  then have "slab_node a i = of_nat (2 * (32 * k + 32 * i))"
    by (simp add: slab_node_def)
  then have "even (slab_node a i)"
    by (simp only: of_nat_mult of_nat_numeral dvd_triv_left)
  then show ?thesis
    unfolding and_one_eq by (rule iffD1 [OF even_iff_mod_2_eq_zero])
qed

lemma slab_links_slab_node:
  "i < 8 \<Longrightarrow> slab_links a ! i = TAG_PTR (slab_node a i)"
  by (simp add: slab_links_def slab_node_def)

lemma follow_slab_link:
  assumes "slab_address a" and "i < 8"
  shows "UNTAG_PTR (slab_links a ! i) = slab_node a i"
  using assms
  by (simp add: slab_links_slab_node untag_tag slab_node_untagged slab_address_def)

lemma slab_node_nonnull:
  assumes "slab_address a" and "i < 8"
  shows "slab_node a i \<noteq> 0"
proof
  assume "slab_node a i = 0"
  then have "unat (slab_node a i) = 0"
    by simp
  moreover have "unat a \<noteq> 0"
    using assms(1) by (simp add: slab_address_def unat_eq_0)
  ultimately show False
    using unat_slab_node [of a i] assms by (simp add: slab_address_def)
qed

lemma slab_node_distinct:
  assumes "slab_address a" and "i < 8" and "j < 8" and "i \<noteq> j"
  shows "slab_node a i \<noteq> slab_node a j"
proof
  assume "slab_node a i = slab_node a j"
  then have "unat (slab_node a i) = unat (slab_node a j)"
    by simp
  then show False
    using unat_slab_node [of a i] unat_slab_node [of a j] assms by (simp add: slab_address_def)
qed


lemma slab_memory_node:
  assumes "slab_address a" and "length kids = 8" and "i < 8"
  shows "slab_memory a kids (slab_node a i) = Some (kids ! i)"
proof -
  have "inj_on (slab_node a) (set [0..<8])"
    using slab_node_distinct [OF assms(1)] by (fastforce simp: inj_on_def)
  then have d: "distinct (map (slab_node a) [0..<8])"
    by (simp add: distinct_map)
  have "map_of (zip (map (slab_node a) [0..<8]) kids) (map (slab_node a) [0..<8] ! i) =
        Some (kids ! i)"
    using assms(2,3) d by (intro map_of_zip_nth) simp_all
  then show ?thesis
    using assms(3) by (simp add: slab_memory_def)
qed

lemma follow_slab_node:
  assumes "slab_address a" and "d < 5"
  shows "trie__follow_travel_node (slab_links a) d v = slab_node a (IDX_FROM_VALUE v d)"
  using follow_slab_link [OF assms(1) IDX_less_8 [OF assms(2)]]
  by (simp add: trie__follow_travel_node_def)

section \<open>The claims\<close>

text \<open>
  Claim C4. The addressing function is a total function of the value and the depth. At
  depths 0 to 4 it yields the three bits of the value at bit positions 13, 10, 7, 4 and 1
  (most significant slice first), at the maximum depth the least significant bit; the six
  slices, each shifted back to its position, add up to the value.
\<close>

theorem addressing_slices:
  "IDX_FROM_VALUE v 0 = unat v div 2 ^ 13 mod 2 ^ 3 \<and>
   IDX_FROM_VALUE v 1 = unat v div 2 ^ 10 mod 2 ^ 3 \<and>
   IDX_FROM_VALUE v 2 = unat v div 2 ^ 7 mod 2 ^ 3 \<and>
   IDX_FROM_VALUE v 3 = unat v div 2 ^ 4 mod 2 ^ 3 \<and>
   IDX_FROM_VALUE v 4 = unat v div 2 ^ 1 mod 2 ^ 3 \<and>
   IDX_FROM_VALUE v TRIE_MAX_DEPTH = unat v mod 2 ^ 1 \<and>
   IDX_FROM_VALUE v 0 * 2 ^ 13 + IDX_FROM_VALUE v 1 * 2 ^ 10 + IDX_FROM_VALUE v 2 * 2 ^ 7 +
   IDX_FROM_VALUE v 3 * 2 ^ 4 + IDX_FROM_VALUE v 4 * 2 ^ 1 + IDX_FROM_VALUE v TRIE_MAX_DEPTH
     = unat v"
proof -
  have k1: "key_prefix 1 v = 8 * key_prefix 0 v + IDX_FROM_VALUE v 0"
    using key_prefix_Suc [of 0 v] by simp
  have k2: "key_prefix 2 v = 8 * key_prefix 1 v + IDX_FROM_VALUE v 1"
    using key_prefix_Suc [of 1 v] by (simp add: numeral_2_eq_2)
  have k3: "key_prefix 3 v = 8 * key_prefix 2 v + IDX_FROM_VALUE v 2"
    using key_prefix_Suc [of 2 v] by simp
  have k4: "key_prefix 4 v = 8 * key_prefix 3 v + IDX_FROM_VALUE v 3"
    using key_prefix_Suc [of 3 v] by simp
  have k5: "key_prefix 5 v = 8 * key_prefix 4 v + IDX_FROM_VALUE v 4"
    using key_prefix_Suc [of 4 v] by simp
  have "IDX_FROM_VALUE v 0 * 8192 + IDX_FROM_VALUE v 1 * 1024 + IDX_FROM_VALUE v 2 * 128 +
   IDX_FROM_VALUE v 3 * 16 + IDX_FROM_VALUE v 4 * 2 + IDX_FROM_VALUE v 5 = unat v"
    using k1 k2 k3 k4 k5 unat_key_prefix_5 [of v] key_prefix_0 [of v]
    by linarith
  then have s: "IDX_FROM_VALUE v 0 * 2 ^ 13 + IDX_FROM_VALUE v 1 * 2 ^ 10 +
      IDX_FROM_VALUE v 2 * 2 ^ 7 + IDX_FROM_VALUE v 3 * 2 ^ 4 + IDX_FROM_VALUE v 4 * 2 ^ 1 +
      IDX_FROM_VALUE v 5 = unat v"
    by simp
  have e0: "IDX_FROM_VALUE v 0 = unat v div 2 ^ 13 mod 2 ^ 3"
    by (simp add: IDX_0)
  have e1: "IDX_FROM_VALUE v 1 = unat v div 2 ^ 10 mod 2 ^ 3"
    by (simp add: IDX_1 [unfolded One_nat_def])
  have e2: "IDX_FROM_VALUE v 2 = unat v div 2 ^ 7 mod 2 ^ 3"
    by (simp add: IDX_2)
  have e3: "IDX_FROM_VALUE v 3 = unat v div 2 ^ 4 mod 2 ^ 3"
    by (simp add: IDX_3)
  have e4: "IDX_FROM_VALUE v 4 = unat v div 2 ^ 1 mod 2 ^ 3"
    by (simp add: IDX_4)
  have e5: "IDX_FROM_VALUE v 5 = unat v mod 2 ^ 1"
    by (simp add: IDX_5)
  show ?thesis
    unfolding TRIE_MAX_DEPTH_def using e0 e1 e2 e3 e4 e5 s by blast
qed

text \<open>
  Claim C1, as stated, fails: the container does not take every finite sequence. A
  terminal bucket that holds 65535 makes the next insertion of its value fail the
  assertion of \<open>trie_insert_value\<close>, so the 65536th insertion of the value 1 aborts and
  nothing is enumerated.
\<close>

theorem oracle_equivalence_counterexample:
  "trie_insert_values slabs trie_init (replicate 65536 1) = Inl AssertionFailed"
proof -
  have "\<forall>v. v \<noteq> 0 \<longrightarrow>
          count_list (elems 0 0 (base_node trie_init)) v + count_list (replicate 65535 1) v \<le> 65535"
    by (simp add: trie_init_elems count_list_replicate)
  from insert_values_ok [OF trie_init_inv this, of slabs]
  obtain t where t: "trie_insert_values slabs trie_init (replicate 65535 1) = Inr t"
    "node_inv 0 0 (base_node t)"
    "mset (elems 0 0 (base_node t)) = mset (filter (\<lambda>v. v \<noteq> 0) (replicate 65535 (1::u16)))"
    by (auto simp: trie_init_elems)
  have "count (mset (elems 0 0 (base_node t))) 1 = 65535"
    unfolding t(3) by (simp add: count_list_replicate)
  then have full: "count_list (elems 0 0 (base_node t)) 1 = 65535"
    by (simp add: count_mset)
  have "trie_insert_value (slabs 65535) t 1 = Inl AssertionFailed"
    using insert_value_ok [OF t(2), of 1 "slabs 65535"] full by auto
  moreover have "replicate (Suc 65535) (1::u16) = replicate 65535 1 @ [1]"
    by (simp only: replicate_Suc replicate_append_same)
  moreover have "(65536::nat) = Suc 65535" by simp
  ultimately show ?thesis
    by (simp only: insert_values_append t(1) sum.case length_replicate)
qed

text \<open>
  Claim C1, amended. For every finite sequence in which no non-zero value occurs more than
  65535 times and fewer than 2^64 zeros occur, every permutation of the sequence can be
  inserted into a fresh container, and the enumeration then writes the values in ascending
  order, each once per insertion: the same numbers that the oracle of the property test
  writes for the sequence.
\<close>

theorem oracle_equivalence:
  assumes "\<forall>v. v \<noteq> 0 \<longrightarrow> count_list vs v \<le> 65535" and "count_list vs 0 < 2 ^ 64"
    and "mset ws = mset vs"
  shows "\<exists>t out. trie_insert_values al trie_init ws = Inr t \<and>
           trie_print_values t = Inr out \<and> out = sort vs \<and>
           map unat out = oracle_print (foldl oracle_insert oracle_init vs)"
proof -
  have c: "count_list ws v = count_list vs v" for v
    using arg_cong [OF assms(3), of "\<lambda>M. count M v"] by (simp add: count_mset)
  have "\<exists>t. trie_insert_values al trie_init ws = Inr t \<and> node_inv 0 0 (base_node t) \<and>
          trie_print_values t = Inr (sort ws)"
    using assms(1,2) by (intro enumeration_sorted) (simp_all add: c)
  moreover have "sort ws = sort vs"
    using assms(3) by (intro properties_for_sort) simp_all
  moreover have "\<forall>v. count_list vs v < 2 ^ 64"
  proof
    fix v show "count_list vs v < 2 ^ 64"
      using assms(1,2) by (cases "v = 0") (auto intro: le_less_trans)
  qed
  then have "oracle_print (foldl oracle_insert oracle_init vs) = map unat (sort vs)"
    by (rule oracle_sorted)
  ultimately show ?thesis by auto
qed

theorem oracle_equivalence_witness:
  "(\<forall>v. v = 0 \<or> count_list test_simple v \<le> 65535) \<and> count_list test_simple 0 < 2 ^ 64 \<and>
   mset (rev test_simple) = mset test_simple \<and>
   (\<exists>t out. trie_insert_values slabs trie_init (rev test_simple) = Inr t \<and>
      trie_print_values t = Inr out \<and> out = sort test_simple \<and>
      map unat out = oracle_print (foldl oracle_insert oracle_init test_simple))"
proof -
  have h: "(\<forall>v. v \<noteq> 0 \<longrightarrow> count_list test_simple v \<le> 65535) \<and> count_list test_simple 0 < 2 ^ 64"
    by (rule short_run) (simp add: test_simple_def)
  have m: "mset (rev test_simple) = mset test_simple" by simp
  from h m oracle_equivalence [of test_simple "rev test_simple" slabs] show ?thesis
    by blast
qed

text \<open>
  Claim C7. Inserting 0, 1, 2, 3, 5, 1, 8, 0, 8, 13, 65535, 90 into a fresh container
  succeeds, and the enumeration then writes exactly the characters
  \<open>0 0 1 1 2 3 5 8 8 13 90 65535\<close>, each number followed by one space.
\<close>

theorem test_simple_text:
  "\<exists>t out. trie_insert_values al trie_init [0, 1, 2, 3, 5, 1, 8, 0, 8, 13, 65535, 90] = Inr t \<and>
     trie_print_values t = Inr out \<and>
     stream_text (map unat out) = ''0 0 1 1 2 3 5 8 8 13 90 65535 ''"
proof -
  let ?vs = "[0, 1, 2, 3, 5, 1, 8, 0, 8, 13, 65535, 90] :: u16 list"
  have "(\<forall>v. v \<noteq> 0 \<longrightarrow> count_list ?vs v \<le> 65535) \<and> count_list ?vs 0 < 2 ^ 64"
    by (rule short_run) simp
  then obtain t where t: "trie_insert_values al trie_init ?vs = Inr t"
    "trie_print_values t = Inr (sort ?vs)"
    using enumeration_sorted [of ?vs al] by blast
  have "sort ?vs = [0, 0, 1, 1, 2, 3, 5, 8, 8, 13, 90, 65535]"
    by code_simp
  moreover have "stream_text (map unat [0, 0, 1, 1, 2, 3, 5, 8, 8, 13, 90, 65535 :: u16]) =
        ''0 0 1 1 2 3 5 8 8 13 90 65535 ''"
    by (simp add: stream_text_def decimal.simps)
  ultimately show ?thesis using t by simp
qed

text \<open>
  Claim C3, as stated, fails: the occupied slots are not ascending with increasing slot
  index. After the insertions of 1 and 2 the root holds 2 in slot 30 and 1 in slot 31.
\<close>

theorem sparse_layout_counterexample:
  "trie_insert_values slabs trie_init [1, 2] =
     Inr \<lparr>base_node = DataNode (replicate 30 0 @ [2, 1]), number_of_zeros = 0\<rparr> \<and>
   occupied (replicate 30 0 @ [2, 1]) = [2, 1] \<and>
   \<not> sorted (occupied (replicate 30 0 @ [2, 1]))"
proof -
  have run: "trie_insert_values slabs trie_init [1, 2] =
     Inr \<lparr>base_node = DataNode (replicate 30 0 @ [2, 1]), number_of_zeros = 0\<rparr>"
    by code_simp
  have occ: "occupied (replicate 30 0 @ [2, 1 :: u16]) = [2, 1]"
    using occupied_right_justified [of "[1, 2]"] by (simp add: right_justified_def)
  have ns: "\<not> sorted [2, 1 :: u16]" by (simp add: word_le_nat_alt)
  show ?thesis unfolding occ using run ns by blast
qed

text \<open>
  Claim C3, amended. In every data node of a container reached by insertions into a fresh
  one, and in every data node below the travel node that a burst of a full data node
  returns, the array has 32 slots, the unused slots (holding 0) are a prefix of it, the
  occupied slots are the rest, and the occupied values descend with increasing slot index:
  read from slot 31 down, as the enumeration reads them, they ascend, duplicates allowed.
\<close>

theorem sparse_layout:
  "(trie_insert_values al trie_init vs = Inr t \<longrightarrow>
    (d, DataNode ds) \<in> set (reachable_nodes 0 (base_node t)) \<longrightarrow>
      length ds = 32 \<and> ds = replicate (32 - length (occupied ds)) 0 @ occupied ds \<and>
      0 \<notin> set (occupied ds) \<and> sorted (rev (occupied ds))) \<and>
   (full_sparse d' q ds0 \<longrightarrow> trie__burst_data_node al' ds0 d' = Inr n \<longrightarrow>
    (e, DataNode ds') \<in> set (reachable_nodes d' n) \<longrightarrow>
      length ds' = 32 \<and> ds' = replicate (32 - length (occupied ds')) 0 @ occupied ds' \<and>
      0 \<notin> set (occupied ds') \<and> sorted (rev (occupied ds')))"
proof (intro conjI impI)
  assume "trie_insert_values al trie_init vs = Inr t"
    "(d, DataNode ds) \<in> set (reachable_nodes 0 (base_node t))"
  then obtain p where p: "node_inv d p (DataNode ds)" using reachable_inv by blast
  show "length ds = 32" "0 \<notin> set (occupied ds)" "sorted (rev (occupied ds))"
    using data_node_layout [OF p] by simp_all
  show "ds = replicate (32 - length (occupied ds)) 0 @ occupied ds"
    using p by (rule data_node_suffix)
next
  assume "full_sparse d' q ds0" "trie__burst_data_node al' ds0 d' = Inr n"
    "(e, DataNode ds') \<in> set (reachable_nodes d' n)"
  then obtain p where p: "node_inv e p (DataNode ds')" using burst_reachable_inv by blast
  show "length ds' = 32" "0 \<notin> set (occupied ds')" "sorted (rev (occupied ds'))"
    using data_node_layout [OF p] by simp_all
  show "ds' = replicate (32 - length (occupied ds')) 0 @ occupied ds'"
    using p by (rule data_node_suffix)
qed

theorem sparse_layout_witness:
  "trie_insert_values slabs trie_init test_simple_burst =
     Inr (projr (trie_insert_values slabs trie_init test_simple_burst)) \<and>
   (4, DataNode [0, 0, 0, 0, 0, 0, 0, 0, 0, 0, 0, 0, 0, 0, 0, 0,
                 31, 30, 29, 28, 27, 26, 25, 24, 23, 22, 21, 20, 19, 18, 17, 16]) \<in>
     set (reachable_nodes 0
       (base_node (projr (trie_insert_values slabs trie_init test_simple_burst)))) \<and>
   full_sparse 0 0 full_node_example \<and>
   trie__burst_data_node (slabs 0) full_node_example 0 =
     Inr (projr (trie__burst_data_node (slabs 0) full_node_example 0)) \<and>
   (4, DataNode [0, 0, 0, 0, 0, 0, 0, 0, 0, 0, 0, 0, 0, 0, 0, 0,
                 31, 30, 29, 28, 27, 26, 25, 24, 23, 22, 21, 20, 19, 18, 17, 16]) \<in>
     set (reachable_nodes 0 (projr (trie__burst_data_node (slabs 0) full_node_example 0))) \<and>
   sorted (rev (occupied [0, 0, 0, 0, 0, 0, 0, 0, 0, 0, 0, 0, 0, 0, 0, 0,
                 31, 30, 29, 28, 27, 26, 25, 24, 23, 22, 21, 20, 19, 18, 17, 16 :: u16]))"
proof -
  have fs: "full_sparse 0 0 full_node_example"
    by (simp add: full_sparse_def key_prefix_0 full_node_example_def word_le_nat_alt)
  from sparse_layout [of slabs test_simple_burst
      "projr (trie_insert_values slabs trie_init test_simple_burst)" 4
      "[0, 0, 0, 0, 0, 0, 0, 0, 0, 0, 0, 0, 0, 0, 0, 0,
        31, 30, 29, 28, 27, 26, 25, 24, 23, 22, 21, 20, 19, 18, 17, 16]"
      0 0 full_node_example "slabs 0"
      "projr (trie__burst_data_node (slabs 0) full_node_example 0)" 4
      "[0, 0, 0, 0, 0, 0, 0, 0, 0, 0, 0, 0, 0, 0, 0, 0,
        31, 30, 29, 28, 27, 26, 25, 24, 23, 22, 21, 20, 19, 18, 17, 16]"]
    run_simple_burst data_node_of_simple_burst fs run_full_node_example
    data_node_of_full_node_example
  show ?thesis by blast
qed

text \<open>
  Claim C5. On a terminal count node the insertion increments the bucket that the
  addressing function selects at the maximum depth; it fails, by the assertion, exactly
  when that bucket already holds 65535. No bucket of a container reached by insertions
  into a fresh one holds more than 65535.
\<close>

theorem count_ceiling:
  "trie__insert_at al (CountNode cs) TRIE_MAX_DEPTH v =
     (if cs ! IDX_FROM_VALUE v TRIE_MAX_DEPTH = 65535 then Inl AssertionFailed
      else Inr (CountNode (cs[IDX_FROM_VALUE v TRIE_MAX_DEPTH :=
                  cs ! IDX_FROM_VALUE v TRIE_MAX_DEPTH + 1]))) \<and>
   (trie_insert_values al' trie_init vs = Inr t \<longrightarrow>
    (d, CountNode cs') \<in> set (reachable_nodes 0 (base_node t)) \<longrightarrow> i < 8 \<longrightarrow>
      cs' ! i \<le> 65535)"
proof (intro conjI impI)
  show "trie__insert_at al (CountNode cs) TRIE_MAX_DEPTH v =
     (if cs ! IDX_FROM_VALUE v TRIE_MAX_DEPTH = 65535 then Inl AssertionFailed
      else Inr (CountNode (cs[IDX_FROM_VALUE v TRIE_MAX_DEPTH :=
                  cs ! IDX_FROM_VALUE v TRIE_MAX_DEPTH + 1])))"
    by (rule insert_at_count_node)
next
  assume "trie_insert_values al' trie_init vs = Inr t"
    "(d, CountNode cs') \<in> set (reachable_nodes 0 (base_node t))" "i < 8"
  then show "cs' ! i \<le> 65535"
    using reachable_inv count_node_bounds(1) by blast
qed

theorem count_ceiling_witness:
  "trie_insert_values slabs trie_init test_simple_counting_bucket =
     Inr (projr (trie_insert_values slabs trie_init test_simple_counting_bucket)) \<and>
   (5, CountNode [0, 40, 0, 0, 0, 0, 0, 0]) \<in>
     set (reachable_nodes 0
       (base_node (projr (trie_insert_values slabs trie_init test_simple_counting_bucket)))) \<and>
   (1::nat) < 8 \<and> [0, 40, 0, 0, 0, 0, 0, 0] ! 1 \<le> (65535 :: u64) \<and>
   trie__insert_at (slabs 0) (CountNode [0, 65535, 0, 0, 0, 0, 0, 0]) TRIE_MAX_DEPTH 1 =
     Inl AssertionFailed \<and>
   trie__insert_at (slabs 0) (CountNode [0, 40, 0, 0, 0, 0, 0, 0]) TRIE_MAX_DEPTH 1 =
     Inr (CountNode [0, 41, 0, 0, 0, 0, 0, 0])"
proof -
  have i: "IDX_FROM_VALUE 1 TRIE_MAX_DEPTH = 1"
    by (simp add: TRIE_MAX_DEPTH_def IDX_5)
  have a: "trie__insert_at (slabs 0) (CountNode [0, 65535, 0, 0, 0, 0, 0, 0]) TRIE_MAX_DEPTH 1 =
     Inl AssertionFailed"
    using count_ceiling [of "slabs 0" "[0, 65535, 0, 0, 0, 0, 0, 0]" 1] by (simp add: i)
  have b: "trie__insert_at (slabs 0) (CountNode [0, 40, 0, 0, 0, 0, 0, 0]) TRIE_MAX_DEPTH 1 =
     Inr (CountNode [0, 41, 0, 0, 0, 0, 0, 0])"
    using count_ceiling [of "slabs 0" "[0, 40, 0, 0, 0, 0, 0, 0]" 1] by (simp add: i)
  have c: "(1::nat) < 8" by simp
  from count_ceiling [of "slabs 0" "[0, 40, 0, 0, 0, 0, 0, 0]" 1 slabs
      test_simple_counting_bucket
      "projr (trie_insert_values slabs trie_init test_simple_counting_bucket)" 5
      "[0, 40, 0, 0, 0, 0, 0, 0]" 1]
    run_counting_bucket count_node_of_counting_bucket a b c
  show ?thesis by blast
qed

text \<open>
  Claim C8. At the maximum depth the addressing function yields 0 or 1 for every value, so
  insertion and enumeration, which select a bucket by it, touch no other bucket; in every
  count node of a container reached by insertions into a fresh one the buckets 2 to 7
  hold 0.
\<close>

theorem count_buckets_unused:
  "IDX_FROM_VALUE v TRIE_MAX_DEPTH < 2 \<and>
   (trie_insert_values al trie_init vs = Inr t \<longrightarrow>
    (d, CountNode cs) \<in> set (reachable_nodes 0 (base_node t)) \<longrightarrow> 2 \<le> i \<longrightarrow> i < 8 \<longrightarrow>
      cs ! i = 0)"
proof (intro conjI impI)
  show "IDX_FROM_VALUE v TRIE_MAX_DEPTH < 2" by (rule IDX_max_less_2)
next
  assume "trie_insert_values al trie_init vs = Inr t"
    "(d, CountNode cs) \<in> set (reachable_nodes 0 (base_node t))" "2 \<le> i" "i < 8"
  then show "cs ! i = 0"
    using reachable_inv count_node_bounds(2) by blast
qed

theorem count_buckets_unused_witness:
  "trie_insert_values slabs trie_init test_simple_counting_bucket =
     Inr (projr (trie_insert_values slabs trie_init test_simple_counting_bucket)) \<and>
   (5, CountNode [0, 40, 0, 0, 0, 0, 0, 0]) \<in>
     set (reachable_nodes 0
       (base_node (projr (trie_insert_values slabs trie_init test_simple_counting_bucket)))) \<and>
   (2::nat) \<le> 7 \<and> (7::nat) < 8 \<and> [0, 40, 0, 0, 0, 0, 0, 0] ! 7 = (0 :: u64) \<and>
   IDX_FROM_VALUE 65535 TRIE_MAX_DEPTH < 2"
proof -
  have c: "(2::nat) \<le> 7" "(7::nat) < 8" by simp_all
  from count_buckets_unused [of 65535 slabs test_simple_counting_bucket
      "projr (trie_insert_values slabs trie_init test_simple_counting_bucket)" 5
      "[0, 40, 0, 0, 0, 0, 0, 0]" 7]
    run_counting_bucket count_node_of_counting_bucket c
  show ?thesis by blast
qed

text \<open>
  Claim C9. In a container reached by insertions into a fresh one, the classification of
  every node from its depth and from slot 0 of its 16-bit view is the shape the node was
  written as: count nodes are exactly the nodes at the maximum depth, a travel node above
  it has a non-zero slot 0 (the tag bit of its first pointer) and a data node has slot 0
  empty. In particular no data node is left full. Enumeration is a function of the
  container and changes nothing; after \<open>trie_free\<close> no container is left.
\<close>

theorem classification_sound:
  assumes "trie_insert_values al trie_init vs = Inr t"
    and "(d, n) \<in> set (reachable_nodes 0 (base_node t))"
  shows "trie__determine_node_type n d = shape n \<and>
         (shape n = NODE_TYPE_COUNT) = (d = TRIE_MAX_DEPTH) \<and>
         (case n of DataNode ds \<Rightarrow> \<not> trie__data_node_is_full ds | _ \<Rightarrow> True)"
proof -
  from reachable_inv [OF assms] obtain q where q: "node_inv d q n" by blast
  show ?thesis
    using determine_shape [OF q] shape_depth [OF q] data_node_not_full [of d q] q
    by (cases n) simp_all
qed

theorem classification_sound_witness:
  "trie_insert_values slabs trie_init test_simple_burst =
     Inr (projr (trie_insert_values slabs trie_init test_simple_burst)) \<and>
   (4, DataNode [0, 0, 0, 0, 0, 0, 0, 0, 0, 0, 0, 0, 0, 0, 0, 0,
                 31, 30, 29, 28, 27, 26, 25, 24, 23, 22, 21, 20, 19, 18, 17, 16]) \<in>
     set (reachable_nodes 0
       (base_node (projr (trie_insert_values slabs trie_init test_simple_burst)))) \<and>
   trie__determine_node_type
     (DataNode [0, 0, 0, 0, 0, 0, 0, 0, 0, 0, 0, 0, 0, 0, 0, 0,
                31, 30, 29, 28, 27, 26, 25, 24, 23, 22, 21, 20, 19, 18, 17, 16]) 4 =
     NODE_TYPE_DATA \<and>
   \<not> trie__data_node_is_full
     [0, 0, 0, 0, 0, 0, 0, 0, 0, 0, 0, 0, 0, 0, 0, 0,
      31, 30, 29, 28, 27, 26, 25, 24, 23, 22, 21, 20, 19, 18, 17, 16]"
  using classification_sound [OF run_simple_burst data_node_of_simple_burst]
    run_simple_burst data_node_of_simple_burst
  by simp

text \<open>
  Claim C6. The burst of a full data node at depth \<open>d\<close> returns a travel node with eight
  links and eight children, classified as a travel node, and for each index \<open>i\<close> the
  enumeration of child \<open>i\<close> yields exactly the values of the node with
  \<open>IDX_FROM_VALUE v d = i\<close>, so that the children together hold the 32 values of the
  node. Every link is a nonzero word. The C code stops at its assertion when
  \<open>aligned_alloc\<close> returns null; when the slab is at an address as a successful
  \<open>aligned_alloc\<close> returns it (\<open>slab_address\<close>), link \<open>i\<close> with its tag removed is the
  address of node \<open>i\<close> of the slab, it is not null, the node at that address is child
  \<open>i\<close>, and these eight addresses are pairwise different; so \<open>trie__follow_travel_node\<close>
  leads every value \<open>v\<close> to the child at index \<open>IDX_FROM_VALUE v d\<close>.
\<close>

theorem burst_preserves_content:
  assumes "full_sparse d q ds"
  shows "\<exists>kids. trie__burst_data_node al ds d = Inr (TravelNode (slab_links (al d)) kids) \<and>
           length (slab_links (al d)) = 8 \<and> length kids = 8 \<and>
           trie__determine_node_type (TravelNode (slab_links (al d)) kids) d = NODE_TYPE_TRAVEL \<and>
           (\<Sum>i\<leftarrow>[0..<8]. mset (routed d i ds)) = mset ds \<and>
           (\<forall>i<8. slab_links (al d) ! i \<noteq> 0 \<and>
              (\<exists>out. trie__print_subtrie (kids ! i)
                        (prefix_value d q + drop_bit (d * MASK_N_BITS) (slice_consts ! i)) (Suc d)
                      = Inr out \<and>
                     mset out = mset (routed d i ds))) \<and>
           (slab_address (al d) \<longrightarrow>
              (\<forall>i<8. UNTAG_PTR (slab_links (al d) ! i) = slab_node (al d) i \<and>
                 UNTAG_PTR (slab_links (al d) ! i) \<noteq> 0 \<and>
                 slab_memory (al d) kids (UNTAG_PTR (slab_links (al d) ! i)) = Some (kids ! i) \<and>
                 (\<forall>j<8. i \<noteq> j \<longrightarrow>
                    UNTAG_PTR (slab_links (al d) ! i) \<noteq> UNTAG_PTR (slab_links (al d) ! j))) \<and>
              (\<forall>v. slab_memory (al d) kids (trie__follow_travel_node (slab_links (al d)) d v) =
                    Some (kids ! IDX_FROM_VALUE v d)))"
proof -
  note fs = full_sparseD [OF assms]
  obtain kids where b: "trie__burst_data_node al ds d = Inr (TravelNode (slab_links (al d)) kids)"
    and len: "length kids = 8"
    and kids: "\<forall>i<8. node_inv (Suc d) (8 * q + i) (kids ! i) \<and>
            mset (elems (Suc d) (8 * q + i) (kids ! i)) = mset (routed d i (rev ds))"
    using burst_shape [OF assms, of al] by blast
  have inv: "node_inv d q (TravelNode (slab_links (al d)) kids)"
    using fs(1) len kids by (intro travel_node_inv) simp_all
  have ty: "trie__determine_node_type (TravelNode (slab_links (al d)) kids) d = NODE_TYPE_TRAVEL"
    using determine_shape [OF inv] by simp
  have kid: "slab_links (al d) ! i \<noteq> 0 \<and>
      (\<exists>out. trie__print_subtrie (kids ! i)
                (prefix_value d q + drop_bit (d * MASK_N_BITS) (slice_consts ! i)) (Suc d)
              = Inr out \<and> mset out = mset (routed d i ds))" if "i < 8" for i
  proof -
    have "trie__print_subtrie (kids ! i) (prefix_value (Suc d) (8 * q + i)) (Suc d) =
          Inr (elems (Suc d) (8 * q + i) (kids ! i))"
      using kids that pow8_Suc [OF fs(2) that] by (intro print_elems) simp_all
    then show ?thesis
      using kids that slab_links_nonnull [OF that, of "al d"]
      by (simp add: prefix_value_child [OF fs(1) that] routed_rev)
  qed
  have ptr: "UNTAG_PTR (slab_links (al d) ! i) = slab_node (al d) i \<and>
      UNTAG_PTR (slab_links (al d) ! i) \<noteq> 0 \<and>
      slab_memory (al d) kids (UNTAG_PTR (slab_links (al d) ! i)) = Some (kids ! i) \<and>
      (\<forall>j<8. i \<noteq> j \<longrightarrow>
         UNTAG_PTR (slab_links (al d) ! i) \<noteq> UNTAG_PTR (slab_links (al d) ! j))"
    if sa: "slab_address (al d)" and i: "i < 8" for i
    using follow_slab_link [OF sa] slab_node_nonnull [OF sa i] slab_memory_node [OF sa len i]
      slab_node_distinct [OF sa i] i
    by simp
  have follow: "slab_memory (al d) kids (trie__follow_travel_node (slab_links (al d)) d v) =
      Some (kids ! IDX_FROM_VALUE v d)" if sa: "slab_address (al d)" for v
    using slab_memory_node [OF sa len IDX_less_8 [OF fs(1)]]
    by (simp add: follow_slab_node [OF sa fs(1)])
  have old: "length (slab_links (al d)) = 8 \<and> length kids = 8 \<and>
      (\<Sum>i\<leftarrow>[0..<8]. mset (routed d i ds)) = mset ds"
    using len mset_routed_all [OF fs(1), of ds] by (simp add: length_slab_links)
  show ?thesis
    using b old ty kid ptr follow by blast
qed

theorem burst_preserves_content_witness:
  "full_sparse 0 0 full_node_example \<and> slab_address (slabs 0 0) \<and>
   (\<exists>kids. trie__burst_data_node (slabs 0) full_node_example 0 =
       Inr (TravelNode (slab_links (slabs 0 0)) kids) \<and>
     length (slab_links (slabs 0 0)) = 8 \<and> length kids = 8 \<and>
     trie__determine_node_type (TravelNode (slab_links (slabs 0 0)) kids) 0 = NODE_TYPE_TRAVEL \<and>
     (\<Sum>i\<leftarrow>[0..<8]. mset (routed 0 i full_node_example)) = mset full_node_example \<and>
     (\<forall>i<8. slab_links (slabs 0 0) ! i \<noteq> 0 \<and>
        (\<exists>out. trie__print_subtrie (kids ! i)
                  (prefix_value 0 0 + drop_bit (0 * MASK_N_BITS) (slice_consts ! i)) (Suc 0)
                = Inr out \<and>
               mset out = mset (routed 0 i full_node_example))) \<and>
     (\<forall>i<8. UNTAG_PTR (slab_links (slabs 0 0) ! i) = slab_node (slabs 0 0) i \<and>
        UNTAG_PTR (slab_links (slabs 0 0) ! i) \<noteq> 0 \<and>
        slab_memory (slabs 0 0) kids (UNTAG_PTR (slab_links (slabs 0 0) ! i)) = Some (kids ! i)) \<and>
     slab_memory (slabs 0 0) kids (trie__follow_travel_node (slab_links (slabs 0 0)) 0 0x2000) =
       Some (kids ! 1))"
proof -
  have fs: "full_sparse 0 0 full_node_example"
    by (simp add: full_sparse_def key_prefix_0 full_node_example_def word_le_nat_alt)
  have sa: "slab_address (slabs 0 0)"
    by (simp add: slab_address_def slabs_def CACHE_LINE_SIZE_def)
  have ix: "IDX_FROM_VALUE 0x2000 0 = 1"
    by (simp add: IDX_0)
  from burst_preserves_content [OF fs, of "slabs 0"] fs sa ix show ?thesis
    by (metis (no_types, lifting))
qed

text \<open>
  Claim C2, as stated, fails in the depth of the recursive call. For the full node that
  holds the value 1 in all 32 slots, burst at depth 0, child 0 is not the result of a burst
  at depth 2.
\<close>

theorem burst_recursion_counterexample:
  "\<not> (\<exists>c. trie__burst_data_node (slabs 0) (replicate 32 1) 2 = Inr c \<and>
          trie__burst_data_node (slabs 0) (replicate 32 1) 0 =
            Inr (TravelNode (slab_links (slabs 0 0))
                   ((replicate 8 (DataNode (replicate 32 0)))[0 := c])))"
proof
  let ?ones = "replicate 32 (1::u16)"
  let ?Z = "replicate 8 (DataNode (replicate 32 0))"
  let ?al = "slabs 0"
  have all: "\<forall>v\<in>set ?ones. IDX_FROM_VALUE v d = 0" if "d < 5" for d
    using ones_idx [OF that] by simp
  obtain c1 where c1: "trie__burst_data_node ?al ?ones 1 = Inr c1"
    "trie__burst_data_node ?al ?ones 0 = Inr (TravelNode (slab_links (?al 0)) (?Z[0 := c1]))"
    using burst_same_child [OF ones_full _ all, of 0 ?al] by auto
  obtain c2 where c2: "trie__burst_data_node ?al ?ones 2 = Inr c2"
    "trie__burst_data_node ?al ?ones 1 = Inr (TravelNode (slab_links (?al 1)) (?Z[0 := c2]))"
    using burst_same_child [OF ones_full _ all, of 1 ?al] by (auto simp: numeral_2_eq_2)
  obtain c3 where c3: "trie__burst_data_node ?al ?ones 3 = Inr c3"
    "trie__burst_data_node ?al ?ones 2 = Inr (TravelNode (slab_links (?al 2)) (?Z[0 := c3]))"
    using burst_same_child [OF ones_full _ all, of 2 ?al] by (auto simp: numeral_3_eq_3 numeral_2_eq_2)
  obtain c4 where c4: "trie__burst_data_node ?al ?ones 4 = Inr c4"
    "trie__burst_data_node ?al ?ones 3 = Inr (TravelNode (slab_links (?al 3)) (?Z[0 := c4]))"
    using burst_same_child [OF ones_full _ all, of 3 ?al] by (auto simp: eval_nat_numeral)
  have k4: "c4 = TravelNode (slab_links (?al 4))
      (map CountNode (burst_fill_count 4 (rev ?ones) (replicate 8 (replicate 8 0))))"
    using c4(1) by (simp add: burst_unfold_count)
  assume "\<exists>c. trie__burst_data_node ?al ?ones 2 = Inr c \<and>
          trie__burst_data_node ?al ?ones 0 =
            Inr (TravelNode (slab_links (?al 0)) (?Z[0 := c]))"
  then have "?Z[0 := c1] = ?Z[0 := c2]" using c1(2) c2(1) by auto
  then have "c1 = c2" by (rule update_same_slot)
  moreover have e1: "c1 = TravelNode (slab_links (?al 1)) (?Z[0 := c2])"
    using c1(1) c2(2) by simp
  moreover have e2: "c2 = TravelNode (slab_links (?al 2)) (?Z[0 := c3])"
    using c2(1) c3(2) by simp
  ultimately have "TravelNode (slab_links (?al 1)) (?Z[0 := c2]) =
      TravelNode (slab_links (?al 2)) (?Z[0 := c3])"
    by metis
  then have "?Z[0 := c2] = ?Z[0 := c3]" by simp
  then have "c2 = c3" by (rule update_same_slot)
  moreover have e3: "c3 = TravelNode (slab_links (?al 3)) (?Z[0 := c4])"
    using c3(1) c4(2) by simp
  ultimately have "TravelNode (slab_links (?al 2)) (?Z[0 := c3]) =
      TravelNode (slab_links (?al 3)) (?Z[0 := c4])"
    using e2 by metis
  then have "?Z[0 := c3] = ?Z[0 := c4]" by simp
  then have "c3 = c4" by (rule update_same_slot)
  then have "TravelNode (slab_links (?al 3)) (?Z[0 := c4]) =
      TravelNode (slab_links (?al 4))
        (map CountNode (burst_fill_count 4 (rev ?ones) (replicate 8 (replicate 8 0))))"
    using e3 k4 by metis
  then have "?Z[0 := c4] =
      map CountNode (burst_fill_count 4 (rev ?ones) (replicate 8 (replicate 8 0)))"
    by simp
  then have "(?Z[0 := c4]) ! 1 =
      map CountNode (burst_fill_count 4 (rev ?ones) (replicate 8 (replicate 8 0))) ! 1"
    by simp
  moreover have "length (burst_fill_count 4 (rev ?ones) (replicate 8 (replicate 8 0))) = 8"
    using fill_count_length [of 4 "replicate 8 (replicate 8 0)" "rev ?ones"] by simp
  ultimately show False by simp
qed

text \<open>
  Claim C2, amended. In the burst of a full data node at a depth \<open>d\<close> below 4, when all 32
  values map to the same child index \<open>j\<close>, child \<open>j\<close> receives them all, the last
  placement lands in its slot 0 and records it as the node to burst, and the burst
  returns the travel node whose child \<open>j\<close> is the result of the burst of that child at
  depth \<open>d + 1\<close>, the other children being empty data nodes. When the values do not all
  map to one index, no child is recorded and the children are the data nodes of the
  redistribution. At depth 4 the children are count nodes and there is no recursion.
\<close>

theorem burst_recursion:
  assumes "full_sparse d q ds"
  shows
    "(d < 4 \<longrightarrow> (\<forall>v\<in>set ds. IDX_FROM_VALUE v d = j) \<longrightarrow>
        burst_fill_data d (rev ds) (replicate 8 (replicate 32 0), None) =
          Inr ((replicate 8 (replicate 32 0))[j := ds], Some j) \<and>
        (\<exists>c. trie__burst_data_node al ds (Suc d) = Inr c \<and>
             trie__burst_data_node al ds d =
               Inr (TravelNode (slab_links (al d))
                      ((replicate 8 (DataNode (replicate 32 0)))[j := c])))) \<and>
     (d < 4 \<longrightarrow> \<not> (\<exists>j. \<forall>v\<in>set ds. IDX_FROM_VALUE v d = j) \<longrightarrow>
        (\<exists>slab. burst_fill_data d (rev ds) (replicate 8 (replicate 32 0), None) =
                  Inr (slab, None) \<and>
                trie__burst_data_node al ds d =
                  Inr (TravelNode (slab_links (al d)) (map DataNode slab)))) \<and>
     (d = 4 \<longrightarrow>
        trie__burst_data_node al ds d =
          Inr (TravelNode (slab_links (al d))
                 (map CountNode (burst_fill_count d (rev ds) (replicate 8 (replicate 8 0))))))"
proof (intro conjI impI)
  assume d: "d < 4" and all: "\<forall>v\<in>set ds. IDX_FROM_VALUE v d = j"
  show "burst_fill_data d (rev ds) (replicate 8 (replicate 32 0), None) =
          Inr ((replicate 8 (replicate 32 0))[j := ds], Some j)"
    using burst_fill_outcome [OF assms d, of j] all by simp
  show "\<exists>c. trie__burst_data_node al ds (Suc d) = Inr c \<and>
             trie__burst_data_node al ds d =
               Inr (TravelNode (slab_links (al d))
                      ((replicate 8 (DataNode (replicate 32 0)))[j := c]))"
    using assms d all by (rule burst_same_child)
next
  assume d: "d < 4" and none: "\<not> (\<exists>j. \<forall>v\<in>set ds. IDX_FROM_VALUE v d = j)"
  have fill: "burst_fill_data d (rev ds) (replicate 8 (replicate 32 0), None) =
        Inr (data_slab d (rev ds), None)"
    using burst_fill_outcome [OF assms d, of 0] none by simp
  then show "\<exists>slab. burst_fill_data d (rev ds) (replicate 8 (replicate 32 0), None) =
                  Inr (slab, None) \<and>
                trie__burst_data_node al ds d =
                  Inr (TravelNode (slab_links (al d)) (map DataNode slab))"
    using burst_unfold_data [OF d fill, of al] by simp
next
  assume "d = 4"
  then show "trie__burst_data_node al ds d =
          Inr (TravelNode (slab_links (al d))
                 (map CountNode (burst_fill_count d (rev ds) (replicate 8 (replicate 8 0)))))"
    by (simp add: burst_unfold_count)
qed

theorem burst_recursion_witness:
  "full_sparse 0 0 (replicate 32 1) \<and> (0::nat) < 4 \<and>
   set (replicate 32 (1::u16)) = {1} \<and> IDX_FROM_VALUE 1 0 = 0 \<and>
   burst_fill_data 0 (rev (replicate 32 1)) (replicate 8 (replicate 32 0), None) =
     Inr ((replicate 8 (replicate 32 0))[0 := replicate 32 1], Some 0) \<and>
   (\<exists>c. trie__burst_data_node (slabs 0) (replicate 32 1) (Suc 0) = Inr c \<and>
        trie__burst_data_node (slabs 0) (replicate 32 1) 0 =
          Inr (TravelNode (slab_links (slabs 0 0))
                 ((replicate 8 (DataNode (replicate 32 0)))[0 := c]))) \<and>
   full_sparse 3 0 full_node_example \<and> (3::nat) < 4 \<and>
   1 \<in> set full_node_example \<and> 32 \<in> set full_node_example \<and>
   IDX_FROM_VALUE 1 3 \<noteq> IDX_FROM_VALUE 32 3 \<and>
   (\<exists>slab. burst_fill_data 3 (rev full_node_example) (replicate 8 (replicate 32 0), None) =
             Inr (slab, None) \<and>
           trie__burst_data_node (slabs 0) full_node_example 3 =
             Inr (TravelNode (slab_links (slabs 0 3)) (map DataNode slab))) \<and>
   full_sparse 4 0 (replicate 32 1) \<and>
   trie__burst_data_node (slabs 0) (replicate 32 1) 4 =
     Inr (TravelNode (slab_links (slabs 0 4))
            (map CountNode (burst_fill_count 4 (rev (replicate 32 1))
               (replicate 8 (replicate 8 0)))))"
proof -
  have f0: "full_sparse 0 0 (replicate 32 1)" and f4: "full_sparse 4 0 (replicate 32 1)"
    by (simp_all add: ones_full)
  have f3: "full_sparse 3 0 full_node_example"
    by (simp add: full_sparse_def key_prefix_def full_node_example_def word_le_nat_alt)
  have s: "set (replicate 32 (1::u16)) = {1}" by simp
  have i0: "IDX_FROM_VALUE 1 0 = 0" by (simp add: ones_idx)
  have m: "1 \<in> set full_node_example" "32 \<in> set full_node_example"
    by (simp_all add: full_node_example_def)
  have ne: "IDX_FROM_VALUE 1 3 \<noteq> IDX_FROM_VALUE 32 3"
    by (simp add: IDX_3)
  have none: "\<not> (\<exists>j. \<forall>v\<in>set full_node_example. IDX_FROM_VALUE v 3 = j)"
    using m ne by metis
  have all: "\<forall>v\<in>set (replicate 32 (1::u16)). IDX_FROM_VALUE v 0 = 0"
    using i0 by simp
  from burst_recursion [OF f0, of 0 "slabs 0"] all
  have a: "burst_fill_data 0 (rev (replicate 32 1)) (replicate 8 (replicate 32 0), None) =
      Inr ((replicate 8 (replicate 32 0))[0 := replicate 32 1], Some 0)"
    "\<exists>c. trie__burst_data_node (slabs 0) (replicate 32 1) (Suc 0) = Inr c \<and>
        trie__burst_data_node (slabs 0) (replicate 32 1) 0 =
          Inr (TravelNode (slab_links (slabs 0 0))
                 ((replicate 8 (DataNode (replicate 32 0)))[0 := c]))"
    by simp_all
  from burst_recursion [OF f3, of 0 "slabs 0"] none
  have b: "\<exists>slab. burst_fill_data 3 (rev full_node_example) (replicate 8 (replicate 32 0), None) =
             Inr (slab, None) \<and>
           trie__burst_data_node (slabs 0) full_node_example 3 =
             Inr (TravelNode (slab_links (slabs 0 3)) (map DataNode slab))"
    by simp
  from burst_recursion [OF f4, of 0 "slabs 0"]
  have c: "trie__burst_data_node (slabs 0) (replicate 32 1) 4 =
     Inr (TravelNode (slab_links (slabs 0 4))
            (map CountNode (burst_fill_count 4 (rev (replicate 32 1))
               (replicate 8 (replicate 8 0)))))"
    by simp
  show ?thesis using f0 f3 f4 s i0 m ne a b c by simp
qed

text \<open>
  Claim C10. In the burst of a full data node at a depth below 4 the parent's values are
  read from slot 31 down, that is in ascending order. Before each placement the child
  holds only values that are not above the value to place, so the scan from the child's
  slot 31 passes all of them and stops, inside the 32 slots, at the first empty slot; the
  write goes to that empty slot and overwrites nothing. No slot is shifted, which is
  right only for this order: placing 3 and then 5 keeps both, placing 5 and then 3
  overwrites the 5 in slot 31.
\<close>

theorem burst_placement:
  assumes "full_sparse d q ds" "d < 4" "k < 32"
  shows "(\<exists>slab r. burst_fill_data d (take k (rev ds)) (replicate 8 (replicate 32 0), None) =
              Inr (slab, r) \<and>
           (let v = rev ds ! k; c = slab ! IDX_FROM_VALUE v d;
                p = 31 - length (filter (\<lambda>x. x \<noteq> 0) c)
            in burst_scan c v 31 = Inr p \<and> p < 32 \<and> c ! p = 0 \<and>
               (\<forall>x\<in>set c. x \<noteq> 0 \<longrightarrow> x \<le> v))) \<and>
         burst_fill_data 0 [3, 5] (replicate 8 (replicate 32 0), None) =
           Inr ((replicate 8 (replicate 32 0))[0 := (replicate 32 0)[31 := 3, 30 := 5]], None) \<and>
         burst_fill_data 0 [5, 3] (replicate 8 (replicate 32 0), None) =
           Inr ((replicate 8 (replicate 32 0))[0 := (replicate 32 0)[31 := 3]], None)"
proof -
  note fs = full_sparseD [OF assms(1)]
  have "\<exists>slab r. burst_fill_data d (take k (rev ds)) (replicate 8 (replicate 32 0), None) =
              Inr (slab, r) \<and>
           (let v = rev ds ! k; c = slab ! IDX_FROM_VALUE v d;
                p = 31 - length (filter (\<lambda>x. x \<noteq> 0) c)
            in burst_scan c v 31 = Inr p \<and> p < 32 \<and> c ! p = 0 \<and>
               (\<forall>x\<in>set c. x \<noteq> 0 \<longrightarrow> x \<le> v))"
    using fs(1,3,4,5) assms(3) by (intro placement_step) simp_all
  then show ?thesis using right_order_keeps wrong_order_loses by blast
qed

theorem burst_placement_witness:
  "full_sparse 0 0 full_node_example \<and> (0::nat) < 4 \<and> (5::nat) < 32 \<and>
   (\<exists>slab r. burst_fill_data 0 (take 5 (rev full_node_example))
                (replicate 8 (replicate 32 0), None) = Inr (slab, r) \<and>
      (let v = rev full_node_example ! 5; c = slab ! IDX_FROM_VALUE v 0;
           p = 31 - length (filter (\<lambda>x. x \<noteq> 0) c)
       in burst_scan c v 31 = Inr p \<and> p < 32 \<and> c ! p = 0 \<and>
          (\<forall>x\<in>set c. x \<noteq> 0 \<longrightarrow> x \<le> v)))"
proof -
  have fs: "full_sparse 0 0 full_node_example"
    by (simp add: full_sparse_def key_prefix_0 full_node_example_def word_le_nat_alt)
  have c: "(0::nat) < 4" "(5::nat) < 32" by simp_all
  from burst_placement [OF fs c] fs c show ?thesis by blast
qed

end
